theory Spec2Isabelle
  imports Main "HOL-Library.Multiset" "HOL-Library.Sublist"
begin

section \<open>Data model\<close>

text \<open>
  The plugin lives in one file, \<^verbatim>\<open>src/main.ts\<close>. Strings are modelled as \<^typ>\<open>string\<close>
  (lists of 8-bit characters, read as the code units 0..255 of a JavaScript string);
  array lengths, indices and counters are \<^typ>\<open>nat\<close>; timestamps (\<^verbatim>\<open>Date.now()\<close>)
  are \<^typ>\<open>int\<close>.
\<close>

text \<open>\<^verbatim>\<open>interface RegexPattern\<close> (main.ts, lines 15-25). The field \<^verbatim>\<open>id\<close> is named
  \<open>id'\<close> because \<open>id\<close> is the identity function of HOL.\<close>

record RegexPattern =
  id' :: string
  name :: string
  findText :: string
  replaceText :: string
  useRegEx :: bool
  caseInsensitive :: bool
  isPinned :: bool
  lastUsed :: int
  useCount :: nat

text \<open>\<^verbatim>\<open>interface RfrPluginSettings\<close> (main.ts, lines 27-43). The fields carry the
  prefix \<open>s_\<close>, since four of them share their names with fields of
  \<^typ>\<open>RegexPattern\<close>.\<close>

record RfrPluginSettings =
  s_findText :: string
  s_replaceText :: string
  s_useRegEx :: bool
  s_selOnly :: bool
  s_caseInsensitive :: bool
  s_multilineMatch :: bool
  s_processLineBreak :: bool
  s_processTab :: bool
  s_prefillFind :: bool
  s_savedPatterns :: "RegexPattern list"
  s_maxHistorySize :: nat
  s_showPreview :: bool
  s_previewLimit :: nat
  s_confirmLargeReplace :: bool
  s_largeReplaceThreshold :: nat

section \<open>Primitives of the host language\<close>

text \<open>\<^verbatim>\<open>String(n)\<close> for a non-negative integer \<open>n\<close>: its decimal digits.\<close>

definition digit_char :: "nat \<Rightarrow> char" where
  "digit_char d = ''0123456789'' ! d"

fun digits :: "nat \<Rightarrow> string" where
  "digits n = (if n < 10 then [digit_char n] else digits (n div 10) @ [digit_char (n mod 10)])"

declare digits.simps [simp del]

text \<open>\<^verbatim>\<open>Array.prototype.findIndex\<close>: the index of the first element satisfying the
  predicate; \<open>None\<close> stands for the result \<open>-1\<close>.\<close>

fun findIndex :: "('a \<Rightarrow> bool) \<Rightarrow> 'a list \<Rightarrow> nat option" where
  "findIndex P [] = None"
| "findIndex P (x # xs) = (if P x then Some 0 else map_option Suc (findIndex P xs))"

text \<open>\<^verbatim>\<open>String.prototype.startsWith\<close>; also the test "the literal \<open>p\<close> occurs in \<open>s\<close> at
  the current position" of the searches below.\<close>

fun startsWith :: "'a list \<Rightarrow> 'a list \<Rightarrow> bool" where
  "startsWith s [] = True"
| "startsWith [] (p # ps) = False"
| "startsWith (c # cs) (p # ps) = (c = p \<and> startsWith cs ps)"

text \<open>\<^verbatim>\<open>String.prototype.indexOf\<close>: the position of the first occurrence; \<open>None\<close>
  stands for \<open>-1\<close>.\<close>

fun indexOf :: "'a list \<Rightarrow> 'a list \<Rightarrow> nat option" where
  "indexOf [] p = (if p = [] then Some 0 else None)"
| "indexOf (c # cs) p =
     (if startsWith (c # cs) p then Some 0 else map_option Suc (indexOf cs p))"

text \<open>\<^verbatim>\<open>String.prototype.split\<close> with a string separator. With a non-empty separator
  the text is scanned from the left; at each occurrence of the separator the current
  piece ends and the scan resumes behind the separator. With the empty separator the
  pieces are the single characters.\<close>

fun split_at :: "'a list \<Rightarrow> 'a list \<Rightarrow> 'a list list" where
  "split_at sep [] = [[]]"
| "split_at sep (c # cs) =
     (if sep \<noteq> [] \<and> startsWith (c # cs) sep
      then [] # split_at sep (drop (length sep - 1) cs)
      else (case split_at sep cs of
              [] \<Rightarrow> [[c]]
            | p # ps \<Rightarrow> (c # p) # ps))"

definition js_split :: "'a list \<Rightarrow> 'a list \<Rightarrow> 'a list list" where
  "js_split s sep = (if sep = [] then map (\<lambda>c. [c]) s else split_at sep s)"

text \<open>\<^verbatim>\<open>Array.prototype.join\<close>.\<close>

fun js_join :: "'a list \<Rightarrow> 'a list list \<Rightarrow> 'a list" where
  "js_join sep [] = []"
| "js_join sep [x] = x"
| "js_join sep (x # y # ys) = x @ sep @ js_join sep (y # ys)"

text \<open>The replacement text of \<^verbatim>\<open>String.prototype.replace(regex, string)\<close> is not
  inserted as it stands: the host expands \<^verbatim>\<open>$$\<close>, \<^verbatim>\<open>$&\<close>, \<^verbatim>\<open>$`\<close> and \<^verbatim>\<open>$'\<close> in
  it (ECMAScript, GetSubstitution). The regular expressions that main.ts builds itself
  have no capture groups, so \<^verbatim>\<open>$1\<close>, \<^verbatim>\<open>$2\<close>, ... and \<^verbatim>\<open>$<\<close> stay as they are.
  \<open>m\<close> is the matched text, \<open>b\<close> the text before the match and \<open>a\<close> the text after
  it, both taken from the string that is searched.\<close>

fun getSubstitution :: "string \<Rightarrow> string \<Rightarrow> string \<Rightarrow> string \<Rightarrow> string" where
  "getSubstitution m b a [] = []"
| "getSubstitution m b a [c] = [c]"
| "getSubstitution m b a (c # d # r) =
     (if c = CHR ''$'' \<and> d = CHR ''$'' then CHR ''$'' # getSubstitution m b a r
      else if c = CHR ''$'' \<and> d = CHR ''&'' then m @ getSubstitution m b a r
      else if c = CHR ''$'' \<and> d = CHR 0x60 then b @ getSubstitution m b a r
      else if c = CHR ''$'' \<and> d = CHR 0x27 then a @ getSubstitution m b a r
      else c # getSubstitution m b a (d # r))"

text \<open>\<^verbatim>\<open>s.replace(/lit/g, tmpl)\<close> for a regular expression that matches exactly the
  non-empty literal text \<open>pat\<close>: every occurrence, found from the left without overlap,
  is replaced by the expansion of \<open>tmpl\<close>. \<open>pre\<close> is the part of the searched string
  that lies before the current position. All regular expressions that main.ts writes
  as literals or builds from \<^verbatim>\<open>'\\$' + n\<close> and from the placeholder are of this kind.\<close>

fun replace_from :: "string \<Rightarrow> string \<Rightarrow> string \<Rightarrow> string \<Rightarrow> string" where
  "replace_from pat tmpl pre [] = []"
| "replace_from pat tmpl pre (c # cs) =
     (if pat \<noteq> [] \<and> startsWith (c # cs) pat
      then getSubstitution pat pre (drop (length pat - 1) cs) tmpl @
           replace_from pat tmpl (pre @ pat) (drop (length pat - 1) cs)
      else c # replace_from pat tmpl (pre @ [c]) cs)"

definition js_replace_all :: "string \<Rightarrow> string \<Rightarrow> string \<Rightarrow> string" where
  "js_replace_all pat tmpl s = replace_from pat tmpl [] s"

text \<open>The regular expressions that the user enters are compiled and run by the host's
  \<^verbatim>\<open>RegExp\<close>, which is not code of the plugin. A compiled expression is modelled by the
  three operations main.ts calls on it: \<^verbatim>\<open>exec\<close> (for a global expression: the first
  match at or behind \<open>lastIndex\<close>, or \<open>None\<close> for \<^verbatim>\<open>null\<close>),
  \<^verbatim>\<open>text.match(regex)\<close> (for a global expression: all matched texts, or \<open>None\<close> for
  \<^verbatim>\<open>null\<close>) and \<^verbatim>\<open>text.replace(regex, replacement)\<close>. The constructor
  \<^verbatim>\<open>new RegExp(source, flags)\<close> is a parameter \<open>newRegExp\<close> of the functions below;
  it returns \<open>Inl e\<close> when the host throws the SyntaxError \<open>e\<close>.\<close>

record jsmatch =
  index :: nat
  whole :: string
  captures :: "string option list"

record regex =
  rx_exec :: "string \<Rightarrow> nat \<Rightarrow> jsmatch option"
  rx_match :: "string \<Rightarrow> string list option"
  rx_replace :: "string \<Rightarrow> string \<Rightarrow> string"

type_synonym regexp_constructor = "string \<Rightarrow> string \<Rightarrow> string + regex"

section \<open>Pattern history\<close>

text \<open>\<^verbatim>\<open>generatePatternName\<close> (main.ts, lines 288-292).\<close>

definition generatePatternName :: "string \<Rightarrow> string" where
  "generatePatternName ft =
     (let maxLen = 30 in
      if length ft \<le> maxLen then ft else take maxLen ft @ ''...'')"

text \<open>\<^verbatim>\<open>pruneHistory\<close> (main.ts, lines 327-335). \<^verbatim>\<open>Array.prototype.sort\<close> is stable;
  with the comparator \<^verbatim>\<open>(a, b) => b.lastUsed - a.lastUsed\<close> it orders by descending
  \<open>lastUsed\<close>, which is the stable insertion sort on the key \<open>- lastUsed\<close>.
  \<^verbatim>\<open>slice(0, n)\<close> is \<^const>\<open>take\<close>.\<close>

definition pruneHistory :: "RfrPluginSettings \<Rightarrow> RfrPluginSettings" where
  "pruneHistory s =
     (let pinned = filter (\<lambda>p. isPinned p) (s_savedPatterns s);
          unpinned = filter (\<lambda>p. \<not> isPinned p) (s_savedPatterns s)
      in if length unpinned > s_maxHistorySize s
         then s\<lparr>s_savedPatterns :=
                  pinned @ take (s_maxHistorySize s) (sort_key (\<lambda>p. - lastUsed p) unpinned)\<rparr>
         else s)"

text \<open>\<^verbatim>\<open>savePattern\<close> (main.ts, lines 294-325). \<open>now\<close> is the value of
  \<^verbatim>\<open>Date.now()\<close> and \<open>rnd\<close> the nine characters drawn from \<^verbatim>\<open>Math.random()\<close>.
  \<^verbatim>\<open>splice(i, 1)\<close> followed by \<^verbatim>\<open>unshift(pattern)\<close> removes position \<open>i\<close> and puts
  the updated entry in front. \<^verbatim>\<open>saveSettings()\<close> only persists the record and is
  not modelled.\<close>

definition savePattern ::
  "int \<Rightarrow> string \<Rightarrow> string \<Rightarrow> string \<Rightarrow> bool \<Rightarrow> bool \<Rightarrow> RfrPluginSettings \<Rightarrow> RfrPluginSettings"
where
  "savePattern now rnd ft rt re ci s =
     (case findIndex (\<lambda>p. findText p = ft \<and> replaceText p = rt \<and>
                           useRegEx p = re \<and> caseInsensitive p = ci) (s_savedPatterns s) of
        Some existingIndex \<Rightarrow>
          (let pattern = (s_savedPatterns s ! existingIndex)
                           \<lparr>lastUsed := now,
                            useCount := useCount (s_savedPatterns s ! existingIndex) + 1\<rparr>
           in s\<lparr>s_savedPatterns :=
                   pattern # (take existingIndex (s_savedPatterns s) @
                              drop (Suc existingIndex) (s_savedPatterns s))\<rparr>)
      | None \<Rightarrow>
          (let newPattern = \<lparr>id' = digits (nat now) @ ''-'' @ rnd,
                             name = generatePatternName ft,
                             findText = ft, replaceText = rt,
                             useRegEx = re, caseInsensitive = ci,
                             isPinned = False, lastUsed = now, useCount = 1\<rparr>
           in pruneHistory (s\<lparr>s_savedPatterns := newPattern # s_savedPatterns s\<rparr>)))"

section \<open>Match previews\<close>

text \<open>\<^verbatim>\<open>interface MatchPreview\<close> (main.ts, lines 70-80).\<close>

record MatchPreview =
  lineNumber :: nat
  lineContent :: string
  matchedText :: string
  replacementText :: string
  matchIndex :: nat
  lineAfterReplace :: string
  matchStartInLine :: nat
  matchEndInLine :: nat
  isMultiLine :: bool

text \<open>The placeholder \<^verbatim>\<open>'\x00DOLLAR\x00'\<close> (main.ts, line 118).\<close>

definition dollarPlaceholder :: string where
  "dollarPlaceholder = CHR 0x00 # ''DOLLAR'' @ [CHR 0x00]"

text \<open>The loop of main.ts, lines 137-140: \<open>n\<close> runs from \<^verbatim>\<open>match.length - 1\<close> down to
  1; \<^verbatim>\<open>match[n]\<close> is the entry \<open>n - 1\<close> of the captures, and an undefined one counts
  as the empty string.\<close>

fun replaceGroups :: "nat \<Rightarrow> string option list \<Rightarrow> string \<Rightarrow> string" where
  "replaceGroups 0 gs rt = rt"
| "replaceGroups (Suc k) gs rt =
     replaceGroups k gs
       (js_replace_all (CHR ''$'' # digits (Suc k))
          (case gs ! k of Some groupValue \<Rightarrow> groupValue | None \<Rightarrow> []) rt)"

text \<open>The replacement text of one match (main.ts, lines 115-143): \<open>replaceString\<close> is
  the template, \<open>line\<close> the line the match was found in. \<^verbatim>\<open>substring(0, matchStart)\<close>
  and \<^verbatim>\<open>substring(matchEnd)\<close> are \<^const>\<open>take\<close> and \<^const>\<open>drop\<close>.\<close>

definition computeReplacement :: "string \<Rightarrow> string \<Rightarrow> jsmatch \<Rightarrow> string" where
  "computeReplacement replaceString line match =
     (let r1 = js_replace_all ''$$'' dollarPlaceholder replaceString;
          matchStart = index match;
          matchEnd = matchStart + length (whole match);
          beforeMatch = take matchStart line;
          r2 = js_replace_all [CHR ''$'', CHR 0x60] beforeMatch r1;
          afterMatch = drop matchEnd line;
          r3 = js_replace_all [CHR ''$'', CHR 0x27] afterMatch r2;
          r4 = js_replace_all ''$&'' (whole match) r3;
          r5 = replaceGroups (length (captures match)) (captures match) r4
      in js_replace_all dollarPlaceholder ''$'' r5)"

text \<open>One preview record of the regex branch (main.ts, lines 145-161).\<close>

definition regexPreview :: "string \<Rightarrow> nat \<Rightarrow> string \<Rightarrow> jsmatch \<Rightarrow> nat \<Rightarrow> MatchPreview" where
  "regexPreview replaceString i line match mi =
     (let rt = computeReplacement replaceString line match;
          matchStart = index match;
          matchEnd = matchStart + length (whole match)
      in \<lparr>lineNumber = i + 1, lineContent = line, matchedText = whole match,
          replacementText = rt, matchIndex = mi,
          lineAfterReplace = take matchStart line @ rt @ drop matchEnd line,
          matchStartInLine = matchStart, matchEndInLine = matchEnd,
          isMultiLine = (CHR 0x0A \<in> set (whole match))\<rparr>)"

text \<open>The inner \<^verbatim>\<open>while\<close> loop (main.ts, lines 110-163) on one line. \<open>lastIndex\<close> is the
  property of \<open>lineRegex\<close> that \<^verbatim>\<open>exec\<close> reads and then sets to the end of the match.
  Every round adds a preview, so the loop stops at the latest when \<open>limit\<close> previews
  exist. \<open>lineRegex\<close> always has the flag \<open>g\<close>, so the \<^verbatim>\<open>break\<close> of line 162 is never
  taken.\<close>

function scanLine ::
  "regex \<Rightarrow> string \<Rightarrow> nat \<Rightarrow> nat \<Rightarrow> string \<Rightarrow> nat \<Rightarrow> MatchPreview list \<Rightarrow> nat
     \<Rightarrow> MatchPreview list \<times> nat"
where
  "scanLine lineRegex replaceString limit i line lastIndex previews mi =
     (case rx_exec lineRegex line lastIndex of
        None \<Rightarrow> (previews, mi)
      | Some match \<Rightarrow>
          if length previews \<ge> limit then (previews, mi)
          else scanLine lineRegex replaceString limit i line
                 (index match + length (whole match))
                 (previews @ [regexPreview replaceString i line match mi]) (mi + 1))"
  by pat_completeness auto
termination
  by (relation "measure (\<lambda>(lineRegex, replaceString, limit, i, line, lastIndex, previews, mi).
                   limit - length previews)") auto

declare scanLine.simps [simp del]

text \<open>The \<^verbatim>\<open>for\<close> loop over the lines in the regex branch (main.ts, lines 105-164).
  \<open>Inl e\<close>: the constructor of line 107 threw \<open>e\<close>.\<close>

fun scanLines ::
  "regexp_constructor \<Rightarrow> string \<Rightarrow> string \<Rightarrow> bool \<Rightarrow> nat \<Rightarrow> nat \<Rightarrow> string list
     \<Rightarrow> MatchPreview list \<Rightarrow> nat \<Rightarrow> string + MatchPreview list"
where
  "scanLines newRegExp searchString replaceString ci limit i [] previews mi = Inr previews"
| "scanLines newRegExp searchString replaceString ci limit i (line # rest) previews mi =
     (if length previews < limit then
        (case newRegExp searchString (if ci then ''gi'' else ''g'') of
           Inl e \<Rightarrow> Inl e
         | Inr lineRegex \<Rightarrow>
             (case scanLine lineRegex replaceString limit i line 0 previews mi of
                (previews', mi') \<Rightarrow>
                  scanLines newRegExp searchString replaceString ci limit (i + 1) rest previews' mi'))
      else Inr previews)"

text \<open>The \<^verbatim>\<open>for\<close> loop of the plain-text branch (main.ts, lines 173-193).\<close>

fun plainLines ::
  "string \<Rightarrow> string \<Rightarrow> nat \<Rightarrow> nat \<Rightarrow> string list \<Rightarrow> MatchPreview list \<Rightarrow> nat
     \<Rightarrow> MatchPreview list"
where
  "plainLines searchString replaceString limit i [] previews mi = previews"
| "plainLines searchString replaceString limit i (line # rest) previews mi =
     (if length previews < limit then
        (case indexOf line searchString of
           Some matchStart \<Rightarrow>
             plainLines searchString replaceString limit (i + 1) rest
               (previews @
                [\<lparr>lineNumber = i + 1, lineContent = line, matchedText = searchString,
                  replacementText = replaceString, matchIndex = mi,
                  lineAfterReplace = js_join replaceString (js_split line searchString),
                  matchStartInLine = matchStart,
                  matchEndInLine = matchStart + length searchString,
                  isMultiLine = (CHR 0x0A \<in> set searchString)\<rparr>])
               (mi + 1)
         | None \<Rightarrow> plainLines searchString replaceString limit (i + 1) rest previews mi)
      else previews)"

text \<open>The result of \<^verbatim>\<open>generateMatchPreviews\<close>, together with the lines it hands to
  \<^verbatim>\<open>console.log\<close> through \<^verbatim>\<open>logger\<close> (main.ts, line 66; level 0 is always printed).
  \<open>totalCount\<close> is an integer: \<^verbatim>\<open>split(...).length - 1\<close> is \<open>-1\<close> for the empty text and
  the empty find string.\<close>

record PreviewResult =
  previews :: "MatchPreview list"
  totalCount :: int
  logged :: "string list"

definition logger :: "string \<Rightarrow> string" where
  "logger logString = ''RegexFiRe: '' @ logString"

definition regexFlags :: "bool \<Rightarrow> bool \<Rightarrow> string" where
  "regexFlags multilineMatch ci =
     ''g'' @ (if multilineMatch then ''m'' else []) @ (if ci then ''i'' else [])"

text \<open>\<^verbatim>\<open>generateMatchPreviews\<close> (main.ts, lines 82-197). An exception anywhere in the
  \<^verbatim>\<open>try\<close> block ends in the \<^verbatim>\<open>catch\<close> of lines 165-168.\<close>

definition generateMatchPreviews ::
  "regexp_constructor \<Rightarrow> string \<Rightarrow> string \<Rightarrow> string \<Rightarrow> bool \<Rightarrow> bool \<Rightarrow> bool \<Rightarrow> nat
     \<Rightarrow> PreviewResult"
where
  "generateMatchPreviews newRegExp text searchString replaceString useRegEx' ci multilineMatch limit =
     (let lines = js_split text [CHR 0x0A] in
      if useRegEx' then
        (case newRegExp searchString (regexFlags multilineMatch ci) of
           Inl e \<Rightarrow>
             \<lparr>previews = [], totalCount = 0,
              logged = [logger (''Invalid regex pattern: '' @ e)]\<rparr>
         | Inr searchRegex \<Rightarrow>
             (let total = (case rx_match searchRegex text of
                             Some allMatches \<Rightarrow> int (length allMatches)
                           | None \<Rightarrow> 0)
              in case scanLines newRegExp searchString replaceString ci limit 0 lines [] 0 of
                   Inl e \<Rightarrow>
                     \<lparr>previews = [], totalCount = 0,
                      logged = [logger (''Invalid regex pattern: '' @ e)]\<rparr>
                 | Inr ps \<Rightarrow> \<lparr>previews = ps, totalCount = total, logged = []\<rparr>))
      else
        \<lparr>previews = plainLines searchString replaceString limit 0 lines [] 0,
         totalCount = int (length (js_split text searchString)) - 1,
         logged = []\<rparr>)"

section \<open>The replacement\<close>

text \<open>The two mutations of the editor that main.ts uses, and a string of an input
  field with the escape sequences expanded (main.ts, lines 859-889: \<^verbatim>\<open>\n\<close> first, then
  \<^verbatim>\<open>\t\<close>, each only when its option is on).\<close>

datatype editorCall = SetValue string | ReplaceSelection string

definition expandEscapes :: "bool \<Rightarrow> bool \<Rightarrow> string \<Rightarrow> string" where
  "expandEscapes processLineBreak processTab str =
     (let s1 = (if processLineBreak then js_replace_all [CHR 0x5C, CHR ''n''] [CHR 0x0A] str
                else str)
      in if processTab then js_replace_all [CHR 0x5C, CHR ''t''] [CHR 0x09] s1 else s1)"

text \<open>What \<^verbatim>\<open>performReplacement\<close> leaves behind: the settings, the calls made to the
  editor in order, the notice shown, and whether the dialog was closed.\<close>

record Outcome =
  o_settings :: RfrPluginSettings
  o_calls :: "editorCall list"
  o_notice :: string
  o_closed :: bool

text \<open>\<^verbatim>\<open>performReplacement\<close> (main.ts, lines 847-956). \<open>docText\<close> and \<open>selectedText\<close>
  are \<^verbatim>\<open>editor.getValue()\<close> and \<^verbatim>\<open>editor.getSelection()\<close>; \<open>findInput\<close>,
  \<open>replaceInput\<close>, \<open>regToggle\<close> and \<open>selToggle\<close> are the values of the four
  controls of the dialog. The constructor of line 896 is outside any \<^verbatim>\<open>try\<close>: its
  exception leaves the function, which is the result \<open>Inl e\<close>. The modal and the
  plugin share one settings object, so \<^verbatim>\<open>savePattern\<close> works on the settings just
  written. \<^verbatim>\<open>saveData\<close> only persists them. In the plain-text branch the source
  names the scopes the other way round (lines 920 and 928), and the find string is
  not empty there, so the \<^verbatim>\<open>split\<close> has at least one piece and \<open>nrOfHits\<close> is a natural
  number.\<close>

definition performReplacement ::
  "regexp_constructor \<Rightarrow> int \<Rightarrow> string \<Rightarrow> RfrPluginSettings \<Rightarrow> string \<Rightarrow> string
     \<Rightarrow> string \<Rightarrow> string \<Rightarrow> bool \<Rightarrow> bool \<Rightarrow> string + Outcome"
where
  "performReplacement newRegExp now rnd settings docText selectedText
       findInput replaceInput regToggle selToggle =
     (if findInput = [] then
        Inr \<lparr>o_settings = settings, o_calls = [],
             o_notice = ''Nothing to search for!'', o_closed = False\<rparr>
      else
        (let searchString =
               expandEscapes (s_processLineBreak settings) (s_processTab settings) findInput;
             replaceString =
               expandEscapes (s_processLineBreak settings) (s_processTab settings) replaceInput;
             finish = (\<lambda>calls resultString.
               (let s1 = settings\<lparr>s_findText := searchString, s_replaceText := replaceString,
                                  s_useRegEx := regToggle, s_selOnly := selToggle\<rparr>;
                    s2 = (if resultString \<noteq> ''No match''
                          then savePattern now rnd searchString replaceInput regToggle
                                 (s_caseInsensitive s1) s1
                          else s1)
                in Inr \<lparr>o_settings = s2, o_calls = calls,
                        o_notice = resultString, o_closed = True\<rparr>))
         in if regToggle then
              (case newRegExp searchString
                      (regexFlags (s_multilineMatch settings) (s_caseInsensitive settings)) of
                 Inl e \<Rightarrow> Inl e
               | Inr searchRegex \<Rightarrow>
                   if \<not> selToggle then
                     (case rx_match searchRegex docText of
                        Some rresult \<Rightarrow>
                          finish [SetValue (rx_replace searchRegex docText replaceString)]
                            (''Made '' @ digits (length rresult) @ '' replacement(s) in document'')
                      | None \<Rightarrow> finish [] ''No match'')
                   else
                     (case rx_match searchRegex selectedText of
                        Some rresult \<Rightarrow>
                          finish [ReplaceSelection (rx_replace searchRegex selectedText replaceString)]
                            (''Made '' @ digits (length rresult) @ '' replacement(s) in selection'')
                      | None \<Rightarrow> finish [] ''No match''))
            else if \<not> selToggle then
              (let documentSplit = js_split docText searchString;
                   nrOfHits = length documentSplit - 1
               in finish [SetValue (js_join replaceString documentSplit)]
                    (''Made '' @ digits nrOfHits @ '' replacement(s) in selection''))
            else
              (let selectedSplit = js_split selectedText searchString;
                   nrOfHits = length selectedSplit - 1
               in finish [ReplaceSelection (js_join replaceString selectedSplit)]
                    (''Made '' @ digits nrOfHits @ '' replacement(s) in document''))))"

section \<open>The Markdown formatter\<close>

text \<open>Character classes of the regular expressions in \<^verbatim>\<open>fixMarkdownFormatting\<close>, on the
  code units 0..255: \<^verbatim>\<open>\s\<close> (tab, line feed, vertical tab, form feed, carriage return,
  space, no-break space; the same characters \<^verbatim>\<open>trim\<close> removes), the line terminators
  that \<^verbatim>\<open>.\<close> does not match, \<^verbatim>\<open>[ \t]\<close>, \<^verbatim>\<open>\d\<close> and \<^verbatim>\<open>#\<close>.\<close>

definition isSpace :: "char \<Rightarrow> bool" where
  "isSpace c \<longleftrightarrow> c \<in> {CHR 0x09, CHR 0x0A, CHR 0x0B, CHR 0x0C, CHR 0x0D, CHR 0x20, CHR 0xA0}"

definition isLineTerminator :: "char \<Rightarrow> bool" where
  "isLineTerminator c \<longleftrightarrow> c \<in> {CHR 0x0A, CHR 0x0D}"

definition isBlank :: "char \<Rightarrow> bool" where
  "isBlank c \<longleftrightarrow> c \<in> {CHR 0x20, CHR 0x09}"

definition isDigit :: "char \<Rightarrow> bool" where
  "isDigit c \<longleftrightarrow> c \<in> set ''0123456789''"

definition isHash :: "char \<Rightarrow> bool" where
  "isHash c \<longleftrightarrow> c = CHR ''#''"

definition noLineTerminator :: "string \<Rightarrow> bool" where
  "noLineTerminator s \<longleftrightarrow> list_all (\<lambda>c. \<not> isLineTerminator c) s"

text \<open>\<^verbatim>\<open>String.prototype.trim\<close> and \<^verbatim>\<open>String.prototype.endsWith\<close>.\<close>

definition js_trim :: "string \<Rightarrow> string" where
  "js_trim s = rev (dropWhile isSpace (rev (dropWhile isSpace s)))"

definition endsWith :: "'a list \<Rightarrow> 'a list \<Rightarrow> bool" where
  "endsWith s p = startsWith (rev s) (rev p)"

text \<open>\<^verbatim>\<open>type FixStat = { key: string; count: number }\<close> (main.ts, line 68) as a pair,
  and \<^verbatim>\<open>inc\<close> (main.ts, lines 201-204): the first entry with the key is raised, a
  missing key is appended.\<close>

type_synonym FixStat = "string \<times> nat"

fun inc :: "string \<Rightarrow> nat \<Rightarrow> FixStat list \<Rightarrow> FixStat list" where
  "inc k by [] = [(k, by)]"
| "inc k by ((k', c) # stats) =
     (if k' = k then (k', c + by) # stats else (k', c) # inc k by stats)"

text \<open>\<^verbatim>\<open>line.match(/^\s*(```+|~~~+)/)\<close> together with the choice of the marker
  (main.ts, lines 211-213): behind the leading whitespace the line goes on with three
  backticks or three tildes. \<^verbatim>\<open>\s*\<close> must take all the leading whitespace, since
  neither fence character is whitespace.\<close>

definition fenceMatch :: "string \<Rightarrow> string option" where
  "fenceMatch line =
     (let r = dropWhile isSpace line in
      if startsWith r [CHR 0x60, CHR 0x60, CHR 0x60] then Some [CHR 0x60, CHR 0x60, CHR 0x60]
      else if startsWith r ''~~~'' then Some ''~~~''
      else None)"

text \<open>The fence state \<open>(inFence, fenceMarker)\<close> after a line (main.ts, lines 212-215 and
  again 267-270).\<close>

definition fenceStep :: "bool \<times> string \<Rightarrow> string \<Rightarrow> bool \<times> string" where
  "fenceStep st line =
     (case fenceMatch line of
        None \<Rightarrow> st
      | Some marker \<Rightarrow>
          if \<not> fst st then (True, marker)
          else if marker = snd st then (False, [])
          else st)"

text \<open>\<^verbatim>\<open>/^(\s{0,3})(#{1,6})\s+#{1,6}\s+(.+)$/\<close> (main.ts, line 223); the result is
  \<open>(p1, p2, p3)\<close>. Every quantifier but the last \<^verbatim>\<open>\s+\<close> is followed by a character
  outside its own class, so it must take its whole run: at most three whitespace
  characters, one to six hashes, whitespace, one to six hashes, whitespace. The last
  \<^verbatim>\<open>\s+\<close> takes its whole run when text without line terminator follows up to the end
  of the line; when nothing follows, it gives back its last character to \<^verbatim>\<open>.+\<close>.\<close>

definition dupHeadMatch :: "string \<Rightarrow> (string \<times> string \<times> string) option" where
  "dupHeadMatch line =
     (let p1 = takeWhile isSpace line; r1 = dropWhile isSpace line;
          p2 = takeWhile isHash r1; r2 = dropWhile isHash r1;
          w1 = takeWhile isSpace r2; r3 = dropWhile isSpace r2;
          h2 = takeWhile isHash r3; r4 = dropWhile isHash r3;
          w2 = takeWhile isSpace r4; t = dropWhile isSpace r4
      in if length p1 \<le> 3 \<and> 1 \<le> length p2 \<and> length p2 \<le> 6 \<and> w1 \<noteq> [] \<and>
            1 \<le> length h2 \<and> length h2 \<le> 6 \<and> w2 \<noteq> []
         then (if t \<noteq> [] then (if noLineTerminator t then Some (p1, p2, t) else None)
               else if 2 \<le> length w2 \<and> \<not> isLineTerminator (last w2)
                    then Some (p1, p2, [last w2]) else None)
         else None)"

definition dupHead :: "string \<Rightarrow> FixStat list \<Rightarrow> string \<times> FixStat list" where
  "dupHead line stats =
     (case dupHeadMatch line of
        None \<Rightarrow> (line, stats)
      | Some (p1, p2, p3) \<Rightarrow>
          (p1 @ p2 @ '' '' @ js_trim p3, inc ''heading_duplicate_hashes'' 1 stats))"

text \<open>\<^verbatim>\<open>/^(\s*)(#{7,})\s+(\S.*)$/\<close> (main.ts, line 229); the result is \<open>(p1, p3)\<close>. All
  leading whitespace, all of at least seven hashes, all the whitespace behind them,
  and then text up to the end of the line without line terminator.\<close>

definition capHeadMatch :: "string \<Rightarrow> (string \<times> string) option" where
  "capHeadMatch line =
     (let p1 = takeWhile isSpace line; r1 = dropWhile isSpace line;
          p2 = takeWhile isHash r1; r2 = dropWhile isHash r1;
          w = takeWhile isSpace r2; p3 = dropWhile isSpace r2
      in if 7 \<le> length p2 \<and> w \<noteq> [] \<and> p3 \<noteq> [] \<and> noLineTerminator p3
         then Some (p1, p3) else None)"

definition capHead :: "string \<Rightarrow> FixStat list \<Rightarrow> string \<times> FixStat list" where
  "capHead line stats =
     (case capHeadMatch line of
        None \<Rightarrow> (line, stats)
      | Some (p1, p3) \<Rightarrow> (p1 @ ''###### '' @ p3, inc ''heading_cap_to_h6'' 1 stats))"

text \<open>\<^verbatim>\<open>/^(\s{0,3})(#{1,6})[ \t]*(\S.*)$/\<close> (main.ts, line 235); the result is
  \<open>(p1, p2, p3)\<close>. With more than six hashes in the run, \<^verbatim>\<open>#{1,6}\<close> takes six and
  \<^verbatim>\<open>\S\<close> the seventh. With \<open>h \<le> 6\<close> hashes it takes them all when, behind the spaces
  and tabs that follow, a character that is not whitespace comes; otherwise it gives
  back one hash, which \<^verbatim>\<open>\S\<close> then takes.\<close>

definition normHeadMatch :: "string \<Rightarrow> (string \<times> string \<times> string) option" where
  "normHeadMatch line =
     (let p1 = takeWhile isSpace line; r1 = dropWhile isSpace line;
          h = length (takeWhile isHash r1)
      in if length p1 \<le> 3 \<and> 1 \<le> h then
           (if 6 < h then
              (if noLineTerminator (drop 6 r1)
               then Some (p1, replicate 6 (CHR ''#''), drop 6 r1) else None)
            else
              (let r3 = dropWhile isBlank (drop h r1) in
               if r3 \<noteq> [] \<and> \<not> isSpace (hd r3) then
                 (if noLineTerminator r3 then Some (p1, replicate h (CHR ''#''), r3) else None)
               else if 2 \<le> h \<and> noLineTerminator (drop (h - 1) r1)
                    then Some (p1, replicate (h - 1) (CHR ''#''), drop (h - 1) r1)
                    else None))
         else None)"

definition normHead :: "string \<Rightarrow> FixStat list \<Rightarrow> string \<times> FixStat list" where
  "normHead line stats =
     (case normHeadMatch line of
        None \<Rightarrow> (line, stats)
      | Some (p1, p2, p3) \<Rightarrow>
          (let desired = p1 @ p2 @ '' '' @ p3 in
           (desired, if line \<noteq> desired then inc ''heading_space_normalize'' 1 stats else stats)))"

text \<open>\<^verbatim>\<open>/^(\s*)([-+*])[ \t]*(\S)/\<close> (main.ts, line 242); the result is the leading
  whitespace \<open>p1\<close>, the bullet \<open>p2\<close>, the spaces and tabs behind it, the character \<open>p3\<close>
  and the rest of the line, which the replacement keeps.\<close>

definition listBulletMatch :: "string \<Rightarrow> (string \<times> char \<times> string \<times> char \<times> string) option" where
  "listBulletMatch line =
     (let p1 = takeWhile isSpace line in
      case dropWhile isSpace line of
        [] \<Rightarrow> None
      | p2 # r2 \<Rightarrow>
          if p2 \<in> {CHR ''-'', CHR ''+'', CHR ''*''} then
            (case dropWhile isBlank r2 of
               [] \<Rightarrow> None
             | p3 # r4 \<Rightarrow>
                 if \<not> isSpace p3 then Some (p1, p2, takeWhile isBlank r2, p3, r4) else None)
          else None)"

definition listBullet :: "string \<Rightarrow> FixStat list \<Rightarrow> string \<times> FixStat list" where
  "listBullet line stats =
     (case listBulletMatch line of
        None \<Rightarrow> (line, stats)
      | Some (p1, p2, b, p3, r) \<Rightarrow>
          (p1 @ [p2] @ '' '' @ [p3] @ r,
           if p1 @ [p2] @ b @ [p3] \<noteq> p1 @ [p2] @ '' '' @ [p3]
           then inc ''list_bullet_space'' 1 stats else stats))"

text \<open>\<^verbatim>\<open>/^(\s*)(\d+\.)[ \t]*(\S)/\<close> (main.ts, line 249); \<open>p2\<close> is the run of digits with
  the dot.\<close>

definition listOrderedMatch :: "string \<Rightarrow> (string \<times> string \<times> string \<times> char \<times> string) option" where
  "listOrderedMatch line =
     (let p1 = takeWhile isSpace line; r1 = dropWhile isSpace line;
          ds = takeWhile isDigit r1
      in if ds = [] then None
         else (case dropWhile isDigit r1 of
                 [] \<Rightarrow> None
               | c # r2 \<Rightarrow>
                   if c = CHR ''.'' then
                     (case dropWhile isBlank r2 of
                        [] \<Rightarrow> None
                      | p3 # r4 \<Rightarrow>
                          if \<not> isSpace p3
                          then Some (p1, ds @ ''.'', takeWhile isBlank r2, p3, r4) else None)
                   else None))"

definition listOrdered :: "string \<Rightarrow> FixStat list \<Rightarrow> string \<times> FixStat list" where
  "listOrdered line stats =
     (case listOrderedMatch line of
        None \<Rightarrow> (line, stats)
      | Some (p1, p2, b, p3, r) \<Rightarrow>
          (p1 @ p2 @ '' '' @ [p3] @ r,
           if p1 @ p2 @ b @ [p3] \<noteq> p1 @ p2 @ '' '' @ [p3]
           then inc ''list_ordered_space'' 1 stats else stats))"

text \<open>The five rewrites of a line outside a fence, each on the result of the one before
  (main.ts, lines 221-254).\<close>

definition fixLine :: "string \<Rightarrow> FixStat list \<Rightarrow> string \<times> FixStat list" where
  "fixLine line stats =
     (case dupHead line stats of (u1, s1) \<Rightarrow>
      case capHead u1 s1 of (u2, s2) \<Rightarrow>
      case normHead u2 s2 of (u3, s3) \<Rightarrow>
      case listBullet u3 s3 of (u4, s4) \<Rightarrow>
      listOrdered u4 s4)"

text \<open>The first loop (main.ts, lines 209-259). A fence line updates the fence state and
  stays; a line inside a fence stays; any other line is rewritten.\<close>

fun firstPass :: "bool \<times> string \<Rightarrow> FixStat list \<Rightarrow> string list \<Rightarrow> string list \<times> FixStat list" where
  "firstPass st stats [] = ([], stats)"
| "firstPass st stats (line # rest) =
     (case fenceMatch line of
        Some marker \<Rightarrow>
          (case firstPass (fenceStep st line) stats rest of (out, stats') \<Rightarrow> (line # out, stats'))
      | None \<Rightarrow>
          if fst st then
            (case firstPass st stats rest of (out, stats') \<Rightarrow> (line # out, stats'))
          else
            (case fixLine line stats of (updated, stats1) \<Rightarrow>
             case firstPass st stats1 rest of (out, stats') \<Rightarrow> (updated # out, stats')))"

text \<open>The rule of the second loop for one line outside a fence (main.ts, lines 273-278):
  a line that ends in exactly two spaces stays, any other line loses its trailing
  spaces and tabs. \<^verbatim>\<open>/[ \t]+$/\<close> matches first at the start of the trailing run.\<close>

definition trimTrailing :: "string \<Rightarrow> string" where
  "trimTrailing line =
     (if endsWith line ''  '' \<and> \<not> endsWith line ''   '' then line
      else rev (dropWhile isBlank (rev line)))"

text \<open>The second loop (main.ts, lines 264-279), with the counter \<open>trailingFixes\<close>. The
  fence state is updated first; a line on which a fence opens, or a line inside a
  fence, is skipped.\<close>

fun secondPass :: "bool \<times> string \<Rightarrow> nat \<Rightarrow> string list \<Rightarrow> string list \<times> nat" where
  "secondPass st trailingFixes [] = ([], trailingFixes)"
| "secondPass st trailingFixes (line # rest) =
     (let st' = fenceStep st line in
      if fst st' then
        (case secondPass st' trailingFixes rest of (out, n) \<Rightarrow> (line # out, n))
      else if trimTrailing line \<noteq> line then
        (case secondPass st' (trailingFixes + 1) rest of (out, n) \<Rightarrow> (trimTrailing line # out, n))
      else
        (case secondPass st' trailingFixes rest of (out, n) \<Rightarrow> (line # out, n)))"

text \<open>\<^verbatim>\<open>fixMarkdownFormatting\<close> (main.ts, lines 199-283); the result is the pair of the
  new text and the statistics.\<close>

definition fixMarkdownFormatting :: "string \<Rightarrow> string \<times> FixStat list" where
  "fixMarkdownFormatting text =
     (case firstPass (False, []) [] (js_split text [CHR 0x0A]) of (lines1, stats1) \<Rightarrow>
      case secondPass (False, []) 0 lines1 of (lines2, trailingFixes) \<Rightarrow>
        (js_join [CHR 0x0A] lines2,
         if trailingFixes > 0 then inc ''trim_trailing_whitespace'' trailingFixes stats1
         else stats1))"

text \<open>The fence state \<open>(inFence, fenceMarker)\<close> with which the loops reach line \<open>i\<close>
  (counted from 0): the state after the lines before it, starting from
  \<^verbatim>\<open>inFence = false\<close>, \<^verbatim>\<open>fenceMarker = ''\<close>.\<close>

definition fenceBefore :: "string list \<Rightarrow> nat \<Rightarrow> bool \<times> string" where
  "fenceBefore lines i = foldl fenceStep (False, []) (take i lines)"

text \<open>The count that the statistics hold under a key, as the caller reads it (main.ts,
  lines 373-383); 0 when there is no entry with the key.\<close>

definition statCount :: "string \<Rightarrow> FixStat list \<Rightarrow> nat" where
  "statCount k stats = (case map_of stats k of Some c \<Rightarrow> c | None \<Rightarrow> 0)"

section \<open>Example data\<close>

text \<open>\<^verbatim>\<open>DEFAULT_SETTINGS\<close> (main.ts, lines 45-61).\<close>

definition DEFAULT_SETTINGS :: RfrPluginSettings where
  "DEFAULT_SETTINGS =
     \<lparr>s_findText = [], s_replaceText = [], s_useRegEx = True, s_selOnly = False,
      s_caseInsensitive = True, s_multilineMatch = True, s_processLineBreak = False,
      s_processTab = False, s_prefillFind = False, s_savedPatterns = [],
      s_maxHistorySize = 10, s_showPreview = True, s_previewLimit = 5,
      s_confirmLargeReplace = True, s_largeReplaceThreshold = 20\<rparr>"

text \<open>A history entry for the find text \<open>ft\<close> (also used as its id), and a history of
  five entries, one of them pinned, under a maximum of two.\<close>

definition entry :: "string \<Rightarrow> bool \<Rightarrow> int \<Rightarrow> RegexPattern" where
  "entry ft pin t =
     \<lparr>id' = ft, name = generatePatternName ft, findText = ft, replaceText = ''r'',
      useRegEx = True, caseInsensitive = False, isPinned = pin, lastUsed = t, useCount = 1\<rparr>"

definition history5 :: RfrPluginSettings where
  "history5 = DEFAULT_SETTINGS
     \<lparr>s_savedPatterns := [entry ''a'' False 5, entry ''b'' True 1, entry ''c'' False 9,
                          entry ''d'' False 3, entry ''e'' False 7],
      s_maxHistorySize := 2\<rparr>"

text \<open>A stand-in for the host's \<^verbatim>\<open>RegExp\<close> on two kinds of source text, used for
  concrete runs only. A source that consists of letters and digits compiles, without
  the flag \<open>i\<close>, to the expression that matches exactly this text; it has no capture
  groups. The source \<^verbatim>\<open>(\<close> does not compile: the host throws a SyntaxError. No other
  source is used below.\<close>

definition literal_regex :: "string \<Rightarrow> regex" where
  "literal_regex src =
     \<lparr>rx_exec = (\<lambda>line lastIndex.
        map_option (\<lambda>k. \<lparr>index = lastIndex + k, whole = src, captures = []\<rparr>)
          (indexOf (drop lastIndex line) src)),
      rx_match = (\<lambda>text.
        if length (js_split text src) - 1 = 0 then None
        else Some (replicate (length (js_split text src) - 1) src)),
      rx_replace = (\<lambda>text replacement. js_replace_all src replacement text)\<rparr>"

definition demoRegExp :: regexp_constructor where
  "demoRegExp src flags =
     (if src = ''('' then Inl ''SyntaxError: Invalid regular expression: /(/: Unterminated group''
      else Inr (literal_regex src))"

text \<open>A Markdown text of six lines: a heading with eight hashes, a fence of tildes
  that holds the same heading and a line of three backticks, and a last line.\<close>

definition demoMarkdown :: string where
  "demoMarkdown =
     ''######## Title \<newline>~~~\<newline>######## Title \<newline>'' @ [CHR 0x60, CHR 0x60, CHR 0x60] @ ''\<newline>~~~\<newline>x''"

text \<open>A Markdown text of six lines: a fence of backticks that holds a heading with
  eight hashes, a line of three tildes and the heading again, and behind the fence the
  same heading once more.\<close>

definition demoBackticks :: string where
  "demoBackticks =
     [CHR 0x60, CHR 0x60, CHR 0x60] @ ''js\<newline>######## Title\<newline>~~~\<newline>######## Title\<newline>'' @
     [CHR 0x60, CHR 0x60, CHR 0x60] @ ''\<newline>######## Title''"

section \<open>Properties\<close>

subsection \<open>Auxiliary facts\<close>

lemma findIndex_Some:
  "findIndex P xs = Some i \<Longrightarrow> i < length xs \<and> P (xs ! i) \<and> (\<forall>j<i. \<not> P (xs ! j))"
proof (induction xs arbitrary: i)
  case Nil
  then show ?case by simp
next
  case (Cons x xs)
  show ?case
  proof (cases "P x")
    case True
    with Cons.prems show ?thesis by simp
  next
    case False
    with Cons.prems obtain k where k: "findIndex P xs = Some k" "i = Suc k"
      by auto
    from Cons.IH [OF k(1)] False k(2) show ?thesis
      by (auto simp: nth_Cons less_Suc_eq_0_disj split: nat.splits)
  qed
qed

lemma findIndex_None: "findIndex P xs = None \<longleftrightarrow> (\<forall>x\<in>set xs. \<not> P x)"
  by (induction xs) auto

lemma findIndex_exists: "\<exists>x\<in>set xs. P x \<Longrightarrow> \<exists>i. findIndex P xs = Some i"
  using findIndex_None [of P xs] by (cases "findIndex P xs") auto

lemma sorted_desc_take_drop:
  "\<forall>k\<in>set (take m (sort_key (\<lambda>p. - f p) xs)).
     \<forall>d\<in>set (drop m (sort_key (\<lambda>p. - f p) xs)). (f d :: int) \<le> f k"
proof -
  let ?srt = "sort_key (\<lambda>p. - f p) xs"
  have "sorted (map (\<lambda>p. - f p) ?srt)" by (rule sorted_sort_key)
  then have "sorted (map (\<lambda>p. - f p) (take m ?srt) @ map (\<lambda>p. - f p) (drop m ?srt))"
    by (simp only: map_append [symmetric] append_take_drop_id)
  then show ?thesis
    unfolding sorted_append by auto
qed

lemma mset_take_drop_sort:
  "mset xs = mset (take m (sort_key f xs)) + mset (drop m (sort_key f xs))"
proof -
  have "mset (take m (sort_key f xs)) + mset (drop m (sort_key f xs)) =
        mset (take m (sort_key f xs) @ drop m (sort_key f xs))"
    by (simp only: mset_append)
  also have "\<dots> = mset (sort_key f xs)" by (simp only: append_take_drop_id)
  also have "\<dots> = mset xs" by (rule mset_sort)
  finally show ?thesis by (rule sym)
qed

lemma pruneHistory_over:
  assumes "length (filter (\<lambda>p. \<not> isPinned p) (s_savedPatterns s)) > s_maxHistorySize s"
  shows "s_savedPatterns (pruneHistory s) = filter isPinned (s_savedPatterns s) @
           take (s_maxHistorySize s)
             (sort_key (\<lambda>p. - lastUsed p) (filter (\<lambda>p. \<not> isPinned p) (s_savedPatterns s)))"
  using assms by (simp add: pruneHistory_def Let_def)

lemma pruneHistory_under:
  assumes "length (filter (\<lambda>p. \<not> isPinned p) (s_savedPatterns s)) \<le> s_maxHistorySize s"
  shows "pruneHistory s = s"
  using assms by (simp add: pruneHistory_def Let_def)

lemma unpinned_take_sort:
  "\<forall>p\<in>set (take m (sort_key f (filter (\<lambda>p. \<not> isPinned p) ps))). \<not> isPinned p"
proof
  fix p assume "p \<in> set (take m (sort_key f (filter (\<lambda>p. \<not> isPinned p) ps)))"
  then have "p \<in> set (sort_key f (filter (\<lambda>p. \<not> isPinned p) ps))" by (rule in_set_takeD)
  then show "\<not> isPinned p" by simp
qed

subsection \<open>Pattern history\<close>

text \<open>
  Claim C7. When the history holds an entry with the four values (find text, replace
  text, regex flag, case flag) that are recorded, \<^const>\<open>savePattern\<close> takes the first
  such entry, at position \<open>i\<close>: the history keeps its length, the entry moves to the
  front with \<open>useCount\<close> raised by one and \<open>lastUsed\<close> set to the current time, its
  id and name stay, and the other entries keep their order.
\<close>

theorem savePattern_existing_entry:
  assumes "\<exists>p\<in>set (s_savedPatterns s).
             findText p = ft \<and> replaceText p = rt \<and> useRegEx p = re \<and> caseInsensitive p = ci"
  shows "\<exists>i<length (s_savedPatterns s).
     (let ps = s_savedPatterns s; e = ps ! i;
          ps' = s_savedPatterns (savePattern now rnd ft rt re ci s) in
       findText e = ft \<and> replaceText e = rt \<and> useRegEx e = re \<and> caseInsensitive e = ci \<and>
       (\<forall>j<i. \<not> (findText (ps ! j) = ft \<and> replaceText (ps ! j) = rt \<and>
                  useRegEx (ps ! j) = re \<and> caseInsensitive (ps ! j) = ci)) \<and>
       length ps' = length ps \<and>
       ps' = e\<lparr>lastUsed := now, useCount := useCount e + 1\<rparr> # (take i ps @ drop (Suc i) ps) \<and>
       useCount (hd ps') = useCount e + 1 \<and> lastUsed (hd ps') = now \<and>
       id' (hd ps') = id' e \<and> name (hd ps') = name e)"
proof -
  let ?P = "\<lambda>p. findText p = ft \<and> replaceText p = rt \<and> useRegEx p = re \<and> caseInsensitive p = ci"
  from assms obtain i where i: "findIndex ?P (s_savedPatterns s) = Some i"
    using findIndex_exists [of "s_savedPatterns s" ?P] by blast
  from findIndex_Some [OF i] have lt: "i < length (s_savedPatterns s)"
    and Pi: "?P (s_savedPatterns s ! i)" and first: "\<forall>j<i. \<not> ?P (s_savedPatterns s ! j)"
    by blast+
  have res: "s_savedPatterns (savePattern now rnd ft rt re ci s) =
      (s_savedPatterns s ! i)\<lparr>lastUsed := now, useCount := useCount (s_savedPatterns s ! i) + 1\<rparr>
        # (take i (s_savedPatterns s) @ drop (Suc i) (s_savedPatterns s))"
    using i by (simp add: savePattern_def Let_def)
  have len: "length (s_savedPatterns (savePattern now rnd ft rt re ci s)) =
             length (s_savedPatterns s)"
    using lt by (simp add: res)
  have hd: "hd (s_savedPatterns (savePattern now rnd ft rt re ci s)) =
      (s_savedPatterns s ! i)\<lparr>lastUsed := now, useCount := useCount (s_savedPatterns s ! i) + 1\<rparr>"
    by (simp add: res)
  show ?thesis
    unfolding Let_def
    apply (rule exI [of _ i])
    apply (intro conjI)
    apply (rule lt)
    apply (simp add: Pi)
    apply (simp add: Pi)
    apply (simp add: Pi)
    apply (simp add: Pi)
    apply (rule first)
    apply (rule len)
    apply (rule res)
    apply (simp add: hd)
    apply (simp add: hd)
    apply (simp add: hd)
    apply (simp add: hd)
    done
qed

theorem savePattern_existing_entry_witness:
  "(\<exists>p\<in>set (s_savedPatterns history5).
      findText p = ''c'' \<and> replaceText p = ''r'' \<and> useRegEx p = True \<and> caseInsensitive p = False) \<and>
   map id' (s_savedPatterns (savePattern 20 ''x'' ''c'' ''r'' True False history5)) =
     [''c'', ''a'', ''b'', ''d'', ''e''] \<and>
   map useCount (s_savedPatterns (savePattern 20 ''x'' ''c'' ''r'' True False history5)) =
     [2, 1, 1, 1, 1] \<and>
   map lastUsed (s_savedPatterns (savePattern 20 ''x'' ''c'' ''r'' True False history5)) =
     [20, 5, 1, 3, 7]"
proof -
  have h: "\<exists>p\<in>set (s_savedPatterns history5).
      findText p = ''c'' \<and> replaceText p = ''r'' \<and> useRegEx p = True \<and> caseInsensitive p = False"
    by (simp add: history5_def DEFAULT_SETTINGS_def entry_def)
  from savePattern_existing_entry [OF h, of 20 "''x''"]
  obtain i where i: "i < length (s_savedPatterns history5)"
    and e: "findText (s_savedPatterns history5 ! i) = ''c''"
    and r: "s_savedPatterns (savePattern 20 ''x'' ''c'' ''r'' True False history5) =
        (s_savedPatterns history5 ! i)
          \<lparr>lastUsed := 20, useCount := useCount (s_savedPatterns history5 ! i) + 1\<rparr>
        # (take i (s_savedPatterns history5) @ drop (Suc i) (s_savedPatterns history5))"
    unfolding Let_def by blast
  from i have "i \<in> {0, 1, 2, 3, 4}"
    by (auto simp: history5_def DEFAULT_SETTINGS_def)
  with e have "i = 2"
    by (auto simp: history5_def DEFAULT_SETTINGS_def entry_def)
  with r h show ?thesis
    by (simp add: history5_def DEFAULT_SETTINGS_def entry_def generatePatternName_def)
qed

text \<open>
  Claim C8. \<^const>\<open>pruneHistory\<close> keeps every pinned entry. When more than
  \<open>maxHistorySize\<close> entries are unpinned, exactly \<open>maxHistorySize\<close> of them remain, and
  none of the discarded ones was used later than a remaining one; otherwise the
  history stays as it is.
\<close>

theorem pruneHistory_keeps_pinned_and_newest:
  "(let ps = s_savedPatterns s; ps' = s_savedPatterns (pruneHistory s);
        unpinned = filter (\<lambda>p. \<not> isPinned p) ps;
        kept = filter (\<lambda>p. \<not> isPinned p) ps' in
    filter isPinned ps' = filter isPinned ps \<and>
    (length unpinned \<le> s_maxHistorySize s \<longrightarrow> ps' = ps) \<and>
    (length unpinned > s_maxHistorySize s \<longrightarrow>
       length kept = s_maxHistorySize s \<and>
       (\<exists>discarded. mset unpinned = mset kept + mset discarded \<and>
          (\<forall>k\<in>set kept. \<forall>d\<in>set discarded. lastUsed d \<le> lastUsed k))))"
proof (cases "length (filter (\<lambda>p. \<not> isPinned p) (s_savedPatterns s)) > s_maxHistorySize s")
  case False
  then have "pruneHistory s = s" by (intro pruneHistory_under) simp
  with False show ?thesis by (simp add: Let_def)
next
  case True
  let ?ps = "s_savedPatterns s"
  let ?un = "filter (\<lambda>p. \<not> isPinned p) ?ps"
  let ?m = "s_maxHistorySize s"
  let ?srt = "sort_key (\<lambda>p. - lastUsed p) ?un"
  note ps' = pruneHistory_over [OF True]
  have tk: "\<forall>p\<in>set (take ?m ?srt). \<not> isPinned p" by (rule unpinned_take_sort)
  have f1: "filter (\<lambda>p. \<not> isPinned p) (take ?m ?srt) = take ?m ?srt"
    using tk by (simp only: filter_id_conv)
  have f2: "filter isPinned (take ?m ?srt) = []"
    using tk by (simp only: filter_empty_conv)
  have kept: "filter (\<lambda>p. \<not> isPinned p) (s_savedPatterns (pruneHistory s)) = take ?m ?srt"
    by (simp add: ps' f1)
  have pin: "filter isPinned (s_savedPatterns (pruneHistory s)) = filter isPinned ?ps"
    by (simp add: ps' f2)
  have len: "length (take ?m ?srt) = ?m" using True by simp
  have ms: "mset ?un = mset (take ?m ?srt) + mset (drop ?m ?srt)"
    by (rule mset_take_drop_sort)
  have ord: "\<forall>k\<in>set (take ?m ?srt). \<forall>d\<in>set (drop ?m ?srt). lastUsed d \<le> lastUsed k"
    by (rule sorted_desc_take_drop)
  have ex: "\<exists>discarded. mset ?un = mset (take ?m ?srt) + mset discarded \<and>
          (\<forall>k\<in>set (take ?m ?srt). \<forall>d\<in>set discarded. lastUsed d \<le> lastUsed k)"
    using ms ord by (intro exI [of _ "drop ?m ?srt"] conjI)
  show ?thesis
    unfolding Let_def kept pin
    apply (intro conjI impI)
    apply (rule refl)
    using True apply simp
    apply (rule len)
    apply (rule ex)
    done
qed

theorem pruneHistory_keeps_pinned_and_newest_witness:
  "length (filter (\<lambda>p. \<not> isPinned p) (s_savedPatterns history5)) > s_maxHistorySize history5 \<and>
   length (filter (\<lambda>p. \<not> isPinned p) (s_savedPatterns (pruneHistory history5))) = 2 \<and>
   map id' (filter isPinned (s_savedPatterns (pruneHistory history5))) = [''b''] \<and>
   map id' (s_savedPatterns (pruneHistory history5)) = [''b'', ''c'', ''e'']"
proof -
  have h: "length (filter (\<lambda>p. \<not> isPinned p) (s_savedPatterns history5)) > s_maxHistorySize history5"
    by (simp add: history5_def DEFAULT_SETTINGS_def entry_def)
  have m: "s_maxHistorySize history5 = 2"
    by (simp add: history5_def)
  have p: "map id' (filter isPinned (s_savedPatterns history5)) = [''b'']"
    by (simp add: history5_def DEFAULT_SETTINGS_def entry_def)
  have r: "map id' (s_savedPatterns (pruneHistory history5)) = [''b'', ''c'', ''e'']"
    by (simp add: pruneHistory_def history5_def DEFAULT_SETTINGS_def entry_def Let_def)
  from pruneHistory_keeps_pinned_and_newest [of history5] h m p r show ?thesis
    by (simp add: Let_def)
qed

lemma startsWith_iff: "startsWith s p \<longleftrightarrow> (\<exists>r. s = p @ r)"
  by (induction s p rule: startsWith.induct) auto

lemma startsWith_prefix: "startsWith s p \<longleftrightarrow> prefix p s"
  by (induction s p rule: startsWith.induct) auto

lemma split_at_nonempty: "split_at sep s \<noteq> []"
  by (induction s rule: split_at.induct) (auto split: list.splits)

lemma indexOf_Some:
  "indexOf s p = Some k \<Longrightarrow>
     k \<le> length s \<and> startsWith (drop k s) p \<and> (\<forall>j<k. \<not> startsWith (drop j s) p)"
proof (induction s arbitrary: k)
  case Nil
  then show ?case by (simp split: if_splits)
next
  case (Cons c cs)
  show ?case
  proof (cases "startsWith (c # cs) p")
    case True
    with Cons.prems show ?thesis by simp
  next
    case False
    with Cons.prems obtain k' where k': "indexOf cs p = Some k'" "k = Suc k'"
      by auto
    from Cons.IH [OF k'(1)] False k'(2) show ?thesis
      by (auto simp: less_Suc_eq_0_disj)
  qed
qed

lemma indexOf_None: "indexOf s p = None \<Longrightarrow> \<forall>j\<le>length s. \<not> startsWith (drop j s) p"
proof (induction s)
  case Nil
  then show ?case by (cases p) (auto split: if_splits)
next
  case (Cons c cs)
  then have 1: "\<not> startsWith (c # cs) p" and 2: "indexOf cs p = None"
    by (auto split: if_splits)
  from Cons.IH [OF 2] 1 show ?case
    by (auto simp: le_Suc_eq drop_Cons split: nat.splits)
qed

lemma plainLines_acc:
  "\<exists>new. plainLines f r limit i ls acc mi = acc @ new \<and>
      sorted_wrt (<) (map lineNumber new) \<and>
      length (acc @ new) \<le> max limit (length acc) \<and>
      (\<forall>p\<in>set new. i < lineNumber p \<and> lineNumber p \<le> i + length ls \<and>
          lineContent p = ls ! (lineNumber p - 1 - i) \<and> matchedText p = f \<and>
          replacementText p = r \<and>
          indexOf (lineContent p) f = Some (matchStartInLine p) \<and>
          matchEndInLine p = matchStartInLine p + length f)"
proof (induction ls arbitrary: i acc mi)
  case Nil
  show ?case by simp
next
  case (Cons line rest)
  show ?case
  proof (cases "length acc < limit")
    case False
    then show ?thesis by simp
  next
    case lt: True
    show ?thesis
    proof (cases "indexOf line f")
      case None
      from Cons.IH [of "i + 1" acc mi] obtain new where
        new: "plainLines f r limit (i + 1) rest acc mi = acc @ new"
          "sorted_wrt (<) (map lineNumber new)"
          "length (acc @ new) \<le> max limit (length acc)"
          "\<forall>p\<in>set new. i + 1 < lineNumber p \<and> lineNumber p \<le> i + 1 + length rest \<and>
          lineContent p = rest ! (lineNumber p - 1 - (i + 1)) \<and> matchedText p = f \<and>
          replacementText p = r \<and>
          indexOf (lineContent p) f = Some (matchStartInLine p) \<and>
          matchEndInLine p = matchStartInLine p + length f"
        by blast
      have nth: "\<And>n. i + 1 < n \<Longrightarrow> (line # rest) ! (n - 1 - i) = rest ! (n - 1 - (i + 1))"
        by (simp add: nth_Cons split: nat.splits) (metis Suc_diff_Suc diff_Suc_eq_diff_pred diff_diff_left less_diff_conv nat.inject plus_1_eq_Suc zero_less_diff )
      show ?thesis
        apply (rule exI [of _ new])
        using lt None new nth by auto
    next
      case (Some k)
      let ?p = "\<lparr>lineNumber = i + 1, lineContent = line, matchedText = f,
                  replacementText = r, matchIndex = mi,
                  lineAfterReplace = js_join r (js_split line f),
                  matchStartInLine = k,
                  matchEndInLine = k + length f,
                  isMultiLine = (CHR 0x0A \<in> set f)\<rparr>"
      from Cons.IH [of "i + 1" "acc @ [?p]" "mi + 1"] obtain new where
        new: "plainLines f r limit (i + 1) rest (acc @ [?p]) (mi + 1) = (acc @ [?p]) @ new"
          "sorted_wrt (<) (map lineNumber new)"
          "length ((acc @ [?p]) @ new) \<le> max limit (length (acc @ [?p]))"
          "\<forall>p\<in>set new. i + 1 < lineNumber p \<and> lineNumber p \<le> i + 1 + length rest \<and>
          lineContent p = rest ! (lineNumber p - 1 - (i + 1)) \<and> matchedText p = f \<and>
          replacementText p = r \<and>
          indexOf (lineContent p) f = Some (matchStartInLine p) \<and>
          matchEndInLine p = matchStartInLine p + length f"
        by blast
      have nth: "\<And>n. i + 1 < n \<Longrightarrow> (line # rest) ! (n - 1 - i) = rest ! (n - 1 - (i + 1))"
        by (simp add: nth_Cons split: nat.splits) (metis Suc_diff_Suc diff_Suc_eq_diff_pred diff_diff_left less_diff_conv nat.inject plus_1_eq_Suc zero_less_diff )
      show ?thesis
        apply (rule exI [of _ "?p # new"])
        using lt Some new nth by auto
    qed
  qed
qed

lemma plainLines_previews:
  "(let ps = plainLines f r limit 0 ls [] 0 in
      length ps \<le> limit \<and> sorted_wrt (<) (map lineNumber ps) \<and>
      (\<forall>p\<in>set ps. 1 \<le> lineNumber p \<and> lineNumber p \<le> length ls \<and>
          lineContent p = ls ! (lineNumber p - 1) \<and> matchedText p = f \<and>
          replacementText p = r \<and>
          indexOf (lineContent p) f = Some (matchStartInLine p) \<and>
          matchEndInLine p = matchStartInLine p + length f))"
  using plainLines_acc [of f r limit 0 ls "[]" 0] by (auto simp: Let_def)

lemma indexOf_occurs:
  "indexOf l f \<noteq> None \<longleftrightarrow> (\<exists>j\<le>length l. startsWith (drop j l) f)"
proof
  assume "indexOf l f \<noteq> None"
  then obtain k where "indexOf l f = Some k" by auto
  from indexOf_Some [OF this] show "\<exists>j\<le>length l. startsWith (drop j l) f" by blast
next
  assume "\<exists>j\<le>length l. startsWith (drop j l) f"
  with indexOf_None [of l f] show "indexOf l f \<noteq> None" by blast
qed

lemma plainLines_lineNumbers:
  "map lineNumber (plainLines f r limit i ls acc mi) =
     map lineNumber acc @
     take (limit - length acc)
       (map (\<lambda>(k, l). k + 1) (filter (\<lambda>(k, l). indexOf l f \<noteq> None) (enumerate i ls)))"
proof (induction ls arbitrary: i acc mi)
  case Nil
  show ?case by simp
next
  case (Cons line rest)
  show ?case
  proof (cases "length acc < limit")
    case False
    then show ?thesis by simp
  next
    case lt: True
    then obtain d where d: "limit - length acc = Suc d" "limit - Suc (length acc) = d"
      by (cases "limit - length acc") auto
    show ?thesis
    proof (cases "indexOf line f")
      case None
      with lt show ?thesis by (simp add: Cons.IH)
    next
      case (Some k)
      with lt d show ?thesis by (simp add: Cons.IH)
    qed
  qed
qed

lemma plainLines_matchIndex:
  "\<exists>new. plainLines f r limit i ls acc mi = acc @ new \<and>
      map matchIndex new = [mi..<mi + length new] \<and>
      (\<forall>p\<in>set new. replacementText p = r \<and>
         lineAfterReplace p = js_join r (js_split (lineContent p) f) \<and>
         isMultiLine p = (CHR 0x0A \<in> set f))"
proof (induction ls arbitrary: i acc mi)
  case Nil
  show ?case by simp
next
  case (Cons line rest)
  show ?case
  proof (cases "length acc < limit")
    case False
    then show ?thesis by simp
  next
    case lt: True
    show ?thesis
    proof (cases "indexOf line f")
      case None
      with lt Cons.IH [of "i + 1" acc mi] show ?thesis by simp
    next
      case (Some k)
      let ?p = "\<lparr>lineNumber = i + 1, lineContent = line, matchedText = f,
                  replacementText = r, matchIndex = mi,
                  lineAfterReplace = js_join r (js_split line f),
                  matchStartInLine = k,
                  matchEndInLine = k + length f,
                  isMultiLine = (CHR 0x0A \<in> set f)\<rparr>"
      from Cons.IH [of "i + 1" "acc @ [?p]" "mi + 1"] obtain new where
        new: "plainLines f r limit (i + 1) rest (acc @ [?p]) (mi + 1) = (acc @ [?p]) @ new"
          "map matchIndex new = [mi + 1..<mi + 1 + length new]"
          "\<forall>p\<in>set new. replacementText p = r \<and>
              lineAfterReplace p = js_join r (js_split (lineContent p) f) \<and>
              isMultiLine p = (CHR 0x0A \<in> set f)"
        by blast
      have "[mi..<mi + length (?p # new)] = mi # [mi + 1..<mi + 1 + length new]"
        by (subst upt_rec) simp
      with new lt Some show ?thesis
        by (intro exI [of _ "?p # new"]) simp
    qed
  qed
qed

lemma js_join_split_at: "f \<noteq> [] \<Longrightarrow> js_join f (split_at f s) = s"
proof (induction s rule: length_induct)
  case (1 s)
  show ?case
  proof (cases s)
    case Nil
    then show ?thesis by simp
  next
    case (Cons c cs)
    show ?thesis
    proof (cases "startsWith (c # cs) f")
      case True
      then obtain rest where rest: "c # cs = f @ rest" by (auto simp: startsWith_iff)
      with \<open>f \<noteq> []\<close> have dr: "drop (length f - 1) cs = rest"
        by (cases f) auto
      obtain p ps where ps: "split_at f rest = p # ps"
        using split_at_nonempty [of f rest] by (cases "split_at f rest") auto
      have "length rest < length s" using rest Cons \<open>f \<noteq> []\<close>
        by (metis length_append length_greater_0_conv less_add_same_cancel2)
      with 1 have j: "js_join f (split_at f rest) = rest" by blast
      have "split_at f (c # cs) = [] # split_at f rest"
        using True \<open>f \<noteq> []\<close> by (simp only: split_at.simps dr) simp
      then have "js_join f (split_at f (c # cs)) = f @ rest"
        using ps j by simp
      with Cons rest show ?thesis by simp
    next
      case False
      obtain p ps where ps: "split_at f cs = p # ps"
        using split_at_nonempty [of f cs] by (cases "split_at f cs") auto
      have "js_join f (split_at f cs) = cs" using 1 Cons by simp
      with False Cons ps show ?thesis by (cases ps) auto
    qed
  qed
qed

lemma split_at_head_prefix:
  assumes "f \<noteq> []" and "split_at f s = p # ps"
  shows "prefix p s"
proof -
  from js_join_split_at [OF assms(1), of s] assms(2) have "js_join f (p # ps) = s" by simp
  then show ?thesis by (cases ps) auto
qed

lemma split_at_pieces_free:
  "f \<noteq> [] \<Longrightarrow> \<forall>piece\<in>set (split_at f s). indexOf piece f = None"
proof (induction s rule: length_induct)
  case (1 s)
  show ?case
  proof (cases s)
    case Nil
    with \<open>f \<noteq> []\<close> show ?thesis by simp
  next
    case (Cons c cs)
    show ?thesis
    proof (cases "startsWith (c # cs) f")
      case True
      have "length (drop (length f - 1) cs) < length s" using Cons by simp
      with 1 have "\<forall>piece\<in>set (split_at f (drop (length f - 1) cs)). indexOf piece f = None"
        by blast
      with True \<open>f \<noteq> []\<close> Cons show ?thesis by simp
    next
      case False
      obtain p ps where ps: "split_at f cs = p # ps"
        using split_at_nonempty [of f cs] by (cases "split_at f cs") auto
      have ih: "\<forall>piece\<in>set (p # ps). indexOf piece f = None"
        using 1 Cons ps by (metis length_Cons lessI)
      from split_at_head_prefix [OF \<open>f \<noteq> []\<close> ps] have "prefix (c # p) (c # cs)" by simp
      with False have "\<not> startsWith (c # p) f"
        unfolding startsWith_prefix using prefix_order.trans by blast
      with ih have "indexOf (c # p) f = None" by simp
      with ih False Cons ps show ?thesis by simp
    qed
  qed
qed

subsection \<open>The plain-text scanner\<close>

text \<open>
  Claim C6. In plain-text mode (\<open>useRegEx = False\<close>) the total count of
  \<^const>\<open>generateMatchPreviews\<close> is the number of pieces of \<^verbatim>\<open>text.split(searchString)\<close>
  minus one; for a find string that is not empty the pieces, joined by the find string,
  give the text back, and no piece holds the find string.

  The previews are those of the first \<open>limit\<close> lines that hold the find string, in
  the order of the lines and one for each: their line numbers are the numbers of
  these lines (counted from 1), so as long as \<open>limit\<close> is not reached every line that
  holds the find string has its preview, and no line has two. The previews are
  numbered from 0. Each preview sits on the first occurrence of the find string in its
  line: the find string starts at \<open>matchStartInLine\<close> and at no earlier position,
  also when the line holds it several times; \<open>lineAfterReplace\<close> is the line with
  every occurrence replaced.
\<close>

theorem plain_text_scan:
  "(let res = generateMatchPreviews newRegExp text f r False ci ml limit;
        lines = js_split text [CHR 0x0A] in
     totalCount res = int (length (js_split text f)) - 1 \<and>
     (f \<noteq> [] \<longrightarrow>
        js_join f (js_split text f) = text \<and>
        (\<forall>piece\<in>set (js_split text f). \<forall>j\<le>length piece. \<not> startsWith (drop j piece) f)) \<and>
     length (previews res) \<le> limit \<and>
     map lineNumber (previews res) =
       take limit (map (\<lambda>(k, l). k + 1)
         (filter (\<lambda>(k, l). \<exists>j\<le>length l. startsWith (drop j l) f) (enumerate 0 lines))) \<and>
     (length (previews res) < limit \<longrightarrow>
        (\<forall>i<length lines. (\<exists>j\<le>length (lines ! i). startsWith (drop j (lines ! i)) f) \<longrightarrow>
           (\<exists>p\<in>set (previews res). lineNumber p = i + 1))) \<and>
     map matchIndex (previews res) = [0..<length (previews res)] \<and>
     sorted_wrt (<) (map lineNumber (previews res)) \<and>
     distinct (map lineNumber (previews res)) \<and>
     (\<forall>p\<in>set (previews res).
        1 \<le> lineNumber p \<and> lineNumber p \<le> length lines \<and>
        lineContent p = lines ! (lineNumber p - 1) \<and> matchedText p = f \<and>
        replacementText p = r \<and>
        lineAfterReplace p = js_join r (js_split (lineContent p) f) \<and>
        matchEndInLine p = matchStartInLine p + length f \<and>
        startsWith (drop (matchStartInLine p) (lineContent p)) f \<and>
        (\<forall>j<matchStartInLine p. \<not> startsWith (drop j (lineContent p)) f)))"
proof -
  define ls where "ls = js_split text [CHR 0x0A]"
  define ps where "ps = plainLines f r limit 0 ls [] 0"
  define hits where "hits = map (\<lambda>(k, l). k + 1)
         (filter (\<lambda>(k, l). \<exists>j\<le>length l. startsWith (drop j l) f) (enumerate 0 ls))"
  have res: "previews (generateMatchPreviews newRegExp text f r False ci ml limit) = ps"
    "totalCount (generateMatchPreviews newRegExp text f r False ci ml limit) =
       int (length (js_split text f)) - 1"
    by (simp_all add: generateMatchPreviews_def Let_def ps_def ls_def)
  have t: "f \<noteq> [] \<longrightarrow>
        js_join f (js_split text f) = text \<and>
        (\<forall>piece\<in>set (js_split text f). \<forall>j\<le>length piece. \<not> startsWith (drop j piece) f)"
  proof
    assume ne: "f \<noteq> []"
    have "\<forall>piece\<in>set (split_at f text). \<forall>j\<le>length piece. \<not> startsWith (drop j piece) f"
      using split_at_pieces_free [OF ne, of "text"] indexOf_None by blast
    with ne show "js_join f (js_split text f) = text \<and>
        (\<forall>piece\<in>set (js_split text f). \<forall>j\<le>length piece. \<not> startsWith (drop j piece) f)"
      by (simp add: js_split_def js_join_split_at)
  qed
  from plainLines_previews [of f r limit ls]
  have a: "length ps \<le> limit" and b: "sorted_wrt (<) (map lineNumber ps)"
    and c: "\<forall>p\<in>set ps. 1 \<le> lineNumber p \<and> lineNumber p \<le> length ls \<and>
          lineContent p = ls ! (lineNumber p - 1) \<and> matchedText p = f \<and>
          indexOf (lineContent p) f = Some (matchStartInLine p) \<and>
          matchEndInLine p = matchStartInLine p + length f"
    unfolding Let_def ps_def by blast+
  from b have d: "distinct (map lineNumber ps)"
    by (simp add: strict_sorted_iff)
  from plainLines_matchIndex [of f r limit 0 ls "[]" 0]
  have m: "map matchIndex ps = [0..<length ps]"
    and m2: "\<forall>p\<in>set ps. replacementText p = r \<and>
         lineAfterReplace p = js_join r (js_split (lineContent p) f)"
    unfolding ps_def by auto
  have occ: "(\<lambda>(k, l). indexOf l f \<noteq> None) = (\<lambda>(k::nat, l). \<exists>j\<le>length l. startsWith (drop j l) f)"
  proof (rule ext)
    fix x :: "nat \<times> string"
    show "(case x of (k, l) \<Rightarrow> indexOf l f \<noteq> None) =
          (case x of (k, l) \<Rightarrow> \<exists>j\<le>length l. startsWith (drop j l) f)"
      by (cases x) (simp only: prod.case indexOf_occurs)
  qed
  have n: "map lineNumber ps = take limit hits"
    unfolding ps_def hits_def using plainLines_lineNumbers [of f r limit 0 ls "[]" 0]
    by (simp only: occ) simp
  have full: "length ps < limit \<longrightarrow>
        (\<forall>i<length ls. (\<exists>j\<le>length (ls ! i). startsWith (drop j (ls ! i)) f) \<longrightarrow>
           (\<exists>p\<in>set ps. lineNumber p = i + 1))"
  proof (intro impI allI)
    fix i
    assume lt: "length ps < limit" and i: "i < length ls"
      and o: "\<exists>j\<le>length (ls ! i). startsWith (drop j (ls ! i)) f"
    from n have "length ps = length (take limit hits)" by (metis length_map)
    with lt have "take limit hits = hits" by simp
    with n have all: "map lineNumber ps = hits" by simp
    from i have "(i, ls ! i) \<in> set (enumerate 0 ls)" by (simp add: in_set_enumerate_eq)
    with o have "i + 1 \<in> set hits" unfolding hits_def by force
    with all have "i + 1 \<in> lineNumber ` set ps" by (metis set_map)
    then show "\<exists>p\<in>set ps. lineNumber p = i + 1" by auto
  qed
  have e: "\<forall>p\<in>set ps. 1 \<le> lineNumber p \<and> lineNumber p \<le> length ls \<and>
        lineContent p = ls ! (lineNumber p - 1) \<and> matchedText p = f \<and>
        replacementText p = r \<and>
        lineAfterReplace p = js_join r (js_split (lineContent p) f) \<and>
        matchEndInLine p = matchStartInLine p + length f \<and>
        startsWith (drop (matchStartInLine p) (lineContent p)) f \<and>
        (\<forall>j<matchStartInLine p. \<not> startsWith (drop j (lineContent p)) f)"
  proof
    fix p assume p: "p \<in> set ps"
    with c have i: "indexOf (lineContent p) f = Some (matchStartInLine p)" by blast
    from indexOf_Some [OF i] c m2 p
    show "1 \<le> lineNumber p \<and> lineNumber p \<le> length ls \<and>
        lineContent p = ls ! (lineNumber p - 1) \<and> matchedText p = f \<and>
        replacementText p = r \<and>
        lineAfterReplace p = js_join r (js_split (lineContent p) f) \<and>
        matchEndInLine p = matchStartInLine p + length f \<and>
        startsWith (drop (matchStartInLine p) (lineContent p)) f \<and>
        (\<forall>j<matchStartInLine p. \<not> startsWith (drop j (lineContent p)) f)"
      by blast
  qed
  show ?thesis
    unfolding Let_def res ls_def [symmetric] hits_def [symmetric]
    by (intro conjI) (rule refl, rule t, rule a, rule n, rule full, rule m, rule b, rule d, rule e)
qed

theorem plain_text_scan_witness:
  "totalCount (generateMatchPreviews (\<lambda>s f. Inl []) ''Xa a\<newline>b\<newline>baXa\<newline>aa'' ''a'' ''c'' False False False 5) = 6 \<and>
   map lineNumber (previews (generateMatchPreviews (\<lambda>s f. Inl []) ''Xa a\<newline>b\<newline>baXa\<newline>aa'' ''a'' ''c'' False False False 5)) = [1, 3, 4] \<and>
   map matchStartInLine (previews (generateMatchPreviews (\<lambda>s f. Inl []) ''Xa a\<newline>b\<newline>baXa\<newline>aa'' ''a'' ''c'' False False False 5)) = [1, 1, 0] \<and>
   map matchIndex (previews (generateMatchPreviews (\<lambda>s f. Inl []) ''Xa a\<newline>b\<newline>baXa\<newline>aa'' ''a'' ''c'' False False False 5)) = [0, 1, 2] \<and>
   map lineNumber (previews (generateMatchPreviews (\<lambda>s f. Inl []) ''Xa a\<newline>b\<newline>baXa\<newline>aa'' ''a'' ''c'' False False False 2)) = [1, 3]"
proof -
  let ?R = "generateMatchPreviews (\<lambda>s f. Inl []) ''Xa a\<newline>b\<newline>baXa\<newline>aa'' ''a'' ''c'' False False False 5"
  have ev: "totalCount ?R = 6" "map lineNumber (previews ?R) = [1, 3, 4]"
    "map matchStartInLine (previews ?R) = [1, 1, 0]" "length (previews ?R) = 3"
    "map lineNumber (previews (generateMatchPreviews (\<lambda>s f. Inl []) ''Xa a\<newline>b\<newline>baXa\<newline>aa'' ''a'' ''c'' False False False 2)) = [1, 3]"
    by (simp_all add: generateMatchPreviews_def js_split_def Let_def)
  from plain_text_scan [of "\<lambda>s f. Inl []" "''Xa a\<newline>b\<newline>baXa\<newline>aa''" "''a''" "''c''" False False 5]
  have "map matchIndex (previews ?R) = [0..<length (previews ?R)]"
    unfolding Let_def by (elim conjE)
  with ev show ?thesis by (simp add: upt_rec)
qed


subsection \<open>The scanner and patterns that do not compile\<close>



lemma pruneHistory_fields:
  "s_findText (pruneHistory s) = s_findText s"
  "s_replaceText (pruneHistory s) = s_replaceText s"
  "s_useRegEx (pruneHistory s) = s_useRegEx s"
  "s_selOnly (pruneHistory s) = s_selOnly s"
  by (simp_all add: pruneHistory_def Let_def)

lemma pruneHistory_subset:
  "set (s_savedPatterns (pruneHistory s)) \<subseteq> set (s_savedPatterns s)"
proof (cases "length (filter (\<lambda>p. \<not> isPinned p) (s_savedPatterns s)) > s_maxHistorySize s")
  case True
  have "set (take (s_maxHistorySize s)
          (sort_key (\<lambda>p. - lastUsed p) (filter (\<lambda>p. \<not> isPinned p) (s_savedPatterns s))))
        \<subseteq> set (sort_key (\<lambda>p. - lastUsed p) (filter (\<lambda>p. \<not> isPinned p) (s_savedPatterns s)))"
    by (rule set_take_subset)
  then show ?thesis
    by (auto simp: pruneHistory_over [OF True])
next
  case False
  then have "pruneHistory s = s" by (intro pruneHistory_under) simp
  then show ?thesis by simp
qed

lemma savePattern_fields:
  "s_findText (savePattern now rnd ft rt re ci s) = s_findText s"
  "s_replaceText (savePattern now rnd ft rt re ci s) = s_replaceText s"
  "s_useRegEx (savePattern now rnd ft rt re ci s) = s_useRegEx s"
  "s_selOnly (savePattern now rnd ft rt re ci s) = s_selOnly s"
  by (simp_all add: savePattern_def Let_def pruneHistory_fields split: option.splits)

lemma savePattern_entries:
  assumes "p \<in> set (s_savedPatterns (savePattern now rnd ft rt re ci s))"
  shows "p \<in> set (s_savedPatterns s) \<or> replaceText p = rt"
proof (cases "findIndex (\<lambda>p. findText p = ft \<and> replaceText p = rt \<and>
                           useRegEx p = re \<and> caseInsensitive p = ci) (s_savedPatterns s)")
  case None
  let ?new = "\<lparr>id' = digits (nat now) @ ''-'' @ rnd, name = generatePatternName ft,
               findText = ft, replaceText = rt, useRegEx = re, caseInsensitive = ci,
               isPinned = False, lastUsed = now, useCount = 1\<rparr>"
  from None have "savePattern now rnd ft rt re ci s =
      pruneHistory (s\<lparr>s_savedPatterns := ?new # s_savedPatterns s\<rparr>)"
    by (simp add: savePattern_def Let_def)
  with assms pruneHistory_subset [of "s\<lparr>s_savedPatterns := ?new # s_savedPatterns s\<rparr>"]
  have "p \<in> set (?new # s_savedPatterns s)" by auto
  then show ?thesis by auto
next
  case (Some i)
  from findIndex_Some [OF Some] have rt: "replaceText (s_savedPatterns s ! i) = rt" by blast
  from Some have "s_savedPatterns (savePattern now rnd ft rt re ci s) =
      (s_savedPatterns s ! i)\<lparr>lastUsed := now, useCount := useCount (s_savedPatterns s ! i) + 1\<rparr>
        # (take i (s_savedPatterns s) @ drop (Suc i) (s_savedPatterns s))"
    by (simp add: savePattern_def Let_def)
  with assms have "p = (s_savedPatterns s ! i)\<lparr>lastUsed := now, useCount := useCount (s_savedPatterns s ! i) + 1\<rparr>
      \<or> p \<in> set (take i (s_savedPatterns s)) \<or> p \<in> set (drop (Suc i) (s_savedPatterns s))"
    by auto
  then show ?thesis
    using rt by (auto dest: in_set_takeD in_set_dropD)
qed

lemma performReplacement_result:
  assumes "performReplacement newRegExp now rnd settings docText selectedText
             findInput replaceInput regToggle selToggle = Inr out"
    and "findInput \<noteq> []"
  shows "\<exists>calls resultString.
     out = \<lparr>o_settings =
              (if resultString \<noteq> ''No match''
               then savePattern now rnd
                      (expandEscapes (s_processLineBreak settings) (s_processTab settings) findInput)
                      replaceInput regToggle (s_caseInsensitive settings)
                      (settings\<lparr>s_findText := expandEscapes (s_processLineBreak settings) (s_processTab settings) findInput,
                         s_replaceText := expandEscapes (s_processLineBreak settings) (s_processTab settings) replaceInput,
                         s_useRegEx := regToggle, s_selOnly := selToggle\<rparr>)
               else settings\<lparr>s_findText := expandEscapes (s_processLineBreak settings) (s_processTab settings) findInput,
                         s_replaceText := expandEscapes (s_processLineBreak settings) (s_processTab settings) replaceInput,
                         s_useRegEx := regToggle, s_selOnly := selToggle\<rparr>),
            o_calls = calls, o_notice = resultString, o_closed = True\<rparr>"
  using assms
  by (auto simp: performReplacement_def Let_def split: if_splits sum.splits option.splits)

subsection \<open>The replacement and the texts it saves\<close>

text \<open>
  Claim C3, as the code has it. After \<^const>\<open>performReplacement\<close> has run on a non-empty
  find field, the find and replace texts in the settings are the working copies with
  the escape sequences expanded, and every history entry that was not in the history
  before carries the replace text exactly as the user entered it.
\<close>

theorem performReplacement_saved_texts:
  assumes "performReplacement newRegExp now rnd settings docText selectedText
             findInput replaceInput regToggle selToggle = Inr out"
    and "findInput \<noteq> []"
  shows "s_findText (o_settings out) =
           expandEscapes (s_processLineBreak settings) (s_processTab settings) findInput \<and>
         s_replaceText (o_settings out) =
           expandEscapes (s_processLineBreak settings) (s_processTab settings) replaceInput \<and>
         (\<forall>p\<in>set (s_savedPatterns (o_settings out)).
            p \<in> set (s_savedPatterns settings) \<or> replaceText p = replaceInput)"
proof -
  let ?f = "expandEscapes (s_processLineBreak settings) (s_processTab settings) findInput"
  let ?r = "expandEscapes (s_processLineBreak settings) (s_processTab settings) replaceInput"
  let ?s1 = "settings\<lparr>s_findText := ?f, s_replaceText := ?r,
                       s_useRegEx := regToggle, s_selOnly := selToggle\<rparr>"
  from performReplacement_result [OF assms] obtain calls resultString where
    out: "o_settings out =
           (if resultString \<noteq> ''No match''
            then savePattern now rnd ?f replaceInput regToggle (s_caseInsensitive settings) ?s1
            else ?s1)"
    by auto
  have a: "s_findText (o_settings out) = ?f" and b: "s_replaceText (o_settings out) = ?r"
    by (simp_all add: out savePattern_fields)
  have c: "\<forall>p\<in>set (s_savedPatterns (o_settings out)).
            p \<in> set (s_savedPatterns settings) \<or> replaceText p = replaceInput"
  proof
    fix p assume p: "p \<in> set (s_savedPatterns (o_settings out))"
    show "p \<in> set (s_savedPatterns settings) \<or> replaceText p = replaceInput"
    proof (cases "resultString \<noteq> ''No match''")
      case True
      with p out have "p \<in> set (s_savedPatterns
          (savePattern now rnd ?f replaceInput regToggle (s_caseInsensitive settings) ?s1))"
        by simp
      from savePattern_entries [OF this] show ?thesis by simp
    next
      case False
      with p out show ?thesis by simp
    qed
  qed
  from a b c show ?thesis by blast
qed

theorem performReplacement_saved_texts_witness:
  "performReplacement demoRegExp 1000 ''abc123xyz'' (DEFAULT_SETTINGS\<lparr>s_processLineBreak := True\<rparr>)
     ''a\<newline>b'' [] (''a'' @ [CHR 0x5C, CHR ''n'']) ([CHR 0x5C, CHR ''n''] @ ''c'') False False =
     Inr (projr (performReplacement demoRegExp 1000 ''abc123xyz''
       (DEFAULT_SETTINGS\<lparr>s_processLineBreak := True\<rparr>)
       ''a\<newline>b'' [] (''a'' @ [CHR 0x5C, CHR ''n'']) ([CHR 0x5C, CHR ''n''] @ ''c'') False False)) \<and>
   ''a'' @ [CHR 0x5C, CHR ''n''] \<noteq> [] \<and>
   s_replaceText (o_settings (projr (performReplacement demoRegExp 1000 ''abc123xyz''
     (DEFAULT_SETTINGS\<lparr>s_processLineBreak := True\<rparr>)
     ''a\<newline>b'' [] (''a'' @ [CHR 0x5C, CHR ''n'']) ([CHR 0x5C, CHR ''n''] @ ''c'') False False))) = ''\<newline>c'' \<and>
   map replaceText (s_savedPatterns (o_settings (projr (performReplacement demoRegExp 1000 ''abc123xyz''
     (DEFAULT_SETTINGS\<lparr>s_processLineBreak := True\<rparr>)
     ''a\<newline>b'' [] (''a'' @ [CHR 0x5C, CHR ''n'']) ([CHR 0x5C, CHR ''n''] @ ''c'') False False)))) =
     [[CHR 0x5C, CHR ''n''] @ ''c'']"
proof -
  let ?run = "performReplacement demoRegExp 1000 ''abc123xyz''
     (DEFAULT_SETTINGS\<lparr>s_processLineBreak := True\<rparr>)
     ''a\<newline>b'' [] (''a'' @ [CHR 0x5C, CHR ''n'']) ([CHR 0x5C, CHR ''n''] @ ''c'') False False"
  have v: "?run = Inr (projr ?run)" "length (s_savedPatterns (o_settings (projr ?run))) = 1"
    by (simp_all add: performReplacement_def DEFAULT_SETTINGS_def expandEscapes_def js_replace_all_def
          js_split_def savePattern_def pruneHistory_def Let_def)
  have e: "expandEscapes True False [CHR 0x5C, CHR ''n'', CHR ''c''] = ''\<newline>c''"
    by (simp add: expandEscapes_def js_replace_all_def)
  from performReplacement_saved_texts [OF v(1)]
  have "s_replaceText (o_settings (projr ?run)) = ''\<newline>c''"
    and "\<forall>p\<in>set (s_savedPatterns (o_settings (projr ?run))). replaceText p = [CHR 0x5C, CHR ''n''] @ ''c''"
    by (simp_all add: DEFAULT_SETTINGS_def e)
  with v show ?thesis
    by (cases "s_savedPatterns (o_settings (projr ?run))") auto
qed

text \<open>
  Claim C3 as the spec states it fails: with line-break expansion switched on and the
  find field holding the three characters \<open>a\<close>, backslash, \<open>n\<close>, the find text written to
  the settings and to the new history entry is \<open>a\<close> followed by a real line break.
\<close>

theorem performReplacement_saves_expanded_find_text:
  "s_findText (o_settings (projr (performReplacement demoRegExp 1000 ''abc123xyz''
     (DEFAULT_SETTINGS\<lparr>s_processLineBreak := True\<rparr>)
     ''a\<newline>b'' [] (''a'' @ [CHR 0x5C, CHR ''n'']) ([CHR 0x5C, CHR ''n''] @ ''c'') False False))) = ''a\<newline>'' \<and>
   map findText (s_savedPatterns (o_settings (projr (performReplacement demoRegExp 1000 ''abc123xyz''
     (DEFAULT_SETTINGS\<lparr>s_processLineBreak := True\<rparr>)
     ''a\<newline>b'' [] (''a'' @ [CHR 0x5C, CHR ''n'']) ([CHR 0x5C, CHR ''n''] @ ''c'') False False)))) = [''a\<newline>''] \<and>
   ''a\<newline>'' \<noteq> ''a'' @ [CHR 0x5C, CHR ''n'']"
  by (simp add: performReplacement_def DEFAULT_SETTINGS_def expandEscapes_def js_replace_all_def
        js_split_def savePattern_def pruneHistory_def Let_def)

text \<open>
  Claim C1 at a plain-text search without a match: the document \<^verbatim>\<open>hello\<close>, the
  find text \<^verbatim>\<open>x\<close>. The text is unchanged and zero replacements are reported, but
  \<^verbatim>\<open>editor.setValue\<close> is called with the text, and the pattern enters the history.
\<close>

theorem performReplacement_plain_no_match:
  "performReplacement demoRegExp 1000 ''abc123xyz'' DEFAULT_SETTINGS ''hello'' [] ''x'' ''y'' False False =
     Inr \<lparr>o_settings = DEFAULT_SETTINGS
            \<lparr>s_findText := ''x'', s_replaceText := ''y'', s_useRegEx := False, s_selOnly := False,
             s_savedPatterns :=
               [\<lparr>id' = ''1000-abc123xyz'', name = ''x'', findText = ''x'', replaceText = ''y'',
                 useRegEx = False, caseInsensitive = True, isPinned = False,
                 lastUsed = 1000, useCount = 1\<rparr>]\<rparr>,
          o_calls = [SetValue ''hello''],
          o_notice = ''Made 0 replacement(s) in selection'',
          o_closed = True\<rparr>"
  by (simp add: performReplacement_def DEFAULT_SETTINGS_def expandEscapes_def js_replace_all_def
        js_split_def savePattern_def pruneHistory_def generatePatternName_def Let_def digits.simps digit_char_def)

text \<open>
  In regex mode a search without a match writes nothing to the editor, reports
  \<^verbatim>\<open>No match\<close> and leaves the history alone.
\<close>

lemma performReplacement_regex_no_match:
  assumes "newRegExp (expandEscapes (s_processLineBreak settings) (s_processTab settings) findInput)
             (regexFlags (s_multilineMatch settings) (s_caseInsensitive settings)) = Inr rx"
    and "rx_match rx (if selToggle then selectedText else docText) = None"
    and "findInput \<noteq> []"
  shows "performReplacement newRegExp now rnd settings docText selectedText
             findInput replaceInput True selToggle =
         Inr \<lparr>o_settings = settings
                \<lparr>s_findText := expandEscapes (s_processLineBreak settings) (s_processTab settings) findInput,
                 s_replaceText := expandEscapes (s_processLineBreak settings) (s_processTab settings) replaceInput,
                 s_useRegEx := True, s_selOnly := selToggle\<rparr>,
              o_calls = [], o_notice = ''No match'', o_closed = True\<rparr>"
  using assms by (cases selToggle) (simp_all add: performReplacement_def Let_def)

subsection \<open>The replacement text of a match\<close>





















text \<open>
  Claim C4 at the template \<^verbatim>\<open>$&\<close>, the line \<^verbatim>\<open>$1x\<close> and the match of the pattern
  \<^verbatim>\<open>\$1(x)\<close> on it (the whole line, with the group \<^verbatim>\<open>x\<close>): the matched text is inserted
  for \<^verbatim>\<open>$&\<close> and then scanned again for \<^verbatim>\<open>$1\<close>, which gives \<^verbatim>\<open>xx\<close> instead of the
  matched text.
\<close>

theorem whole_match_token_rescanned:
  "computeReplacement ''$&'' ''$1x'' \<lparr>index = 0, whole = ''$1x'', captures = [Some ''x'']\<rparr> = ''xx'' \<and>
   computeReplacement ''$&'' ''$1x'' \<lparr>index = 0, whole = ''$1x'', captures = [Some ''x'']\<rparr> \<noteq>
     whole \<lparr>index = 0, whole = ''$1x'', captures = [Some ''x'']\<rparr>"
  by (simp add: computeReplacement_def js_replace_all_def dollarPlaceholder_def Let_def
        digits.simps digit_char_def)

subsection \<open>The Markdown formatter\<close>

lemma js_split_nonempty: "sep \<noteq> [] \<Longrightarrow> js_split s sep \<noteq> []"
  by (simp add: js_split_def split_at_nonempty)

lemma split_at_char_free: "\<forall>l\<in>set (split_at [c] s). c \<notin> set l"
proof (induction s)
  case Nil
  show ?case by simp
next
  case (Cons a s)
  show ?case
  proof (cases "a = c")
    case True
    with Cons show ?thesis by simp
  next
    case False
    obtain p ps where ps: "split_at [c] s = p # ps"
      using split_at_nonempty [of "[c]" s] by (cases "split_at [c] s") auto
    with Cons False show ?thesis by auto
  qed
qed

lemma split_at_no_sep: "c \<notin> set x \<Longrightarrow> split_at [c] x = [x]"
  by (induction x) auto

lemma split_at_piece: "c \<notin> set x \<Longrightarrow> split_at [c] (x @ c # r) = x # split_at [c] r"
  by (induction x) auto

lemma split_join_lines:
  "ls \<noteq> [] \<Longrightarrow> \<forall>l\<in>set ls. c \<notin> set l \<Longrightarrow> split_at [c] (js_join [c] ls) = ls"
proof (induction ls)
  case Nil
  then show ?case by simp
next
  case (Cons x xs)
  show ?case
  proof (cases xs)
    case Nil
    with Cons.prems show ?thesis by (simp add: split_at_no_sep)
  next
    case (Cons y ys)
    with Cons.prems Cons.IH show ?thesis by (simp add: split_at_piece)
  qed
qed

lemma firstPass_length: "length (fst (firstPass st stats ls)) = length ls"
  by (induction ls arbitrary: st stats) (simp_all add: case_prod_beta split: option.splits)

lemma secondPass_length: "length (fst (secondPass st n ls)) = length ls"
  by (induction ls arbitrary: st n) (simp_all add: case_prod_beta Let_def)


lemma set_dropWhile_subset: "set (dropWhile P xs) \<subseteq> set xs"
  by (auto dest: set_dropWhileD)

lemma set_takeWhile_subset: "set (takeWhile P xs) \<subseteq> set xs"
  by (auto dest: set_takeWhileD)

lemma takeWhile_all: "\<forall>x\<in>set (takeWhile P xs). P x"
  by (auto dest: set_takeWhileD)

lemma set_hash_run: "set (takeWhile isHash xs) \<subseteq> {CHR ''#''}"
  using takeWhile_all [of isHash xs] by (auto simp: isHash_def)

lemma js_trim_subset: "set (js_trim s) \<subseteq> set s"
proof -
  have "set (js_trim s) = set (dropWhile isSpace (rev (dropWhile isSpace s)))"
    by (simp add: js_trim_def)
  also have "\<dots> \<subseteq> set (rev (dropWhile isSpace s))" by (rule set_dropWhile_subset)
  also have "\<dots> \<subseteq> set s" by (simp add: set_dropWhile_subset)
  finally show ?thesis .
qed

lemma dupHeadMatch_unfold:
  fixes line
  defines "r1 \<equiv> dropWhile isSpace line"
  defines "r2 \<equiv> dropWhile isHash r1"
  defines "r3 \<equiv> dropWhile isSpace r2"
  defines "r4 \<equiv> dropWhile isHash r3"
  shows "dupHeadMatch line =
     (if length (takeWhile isSpace line) \<le> 3 \<and> 1 \<le> length (takeWhile isHash r1) \<and>
         length (takeWhile isHash r1) \<le> 6 \<and> takeWhile isSpace r2 \<noteq> [] \<and>
         1 \<le> length (takeWhile isHash r3) \<and> length (takeWhile isHash r3) \<le> 6 \<and>
         takeWhile isSpace r4 \<noteq> []
      then (if dropWhile isSpace r4 \<noteq> []
            then (if noLineTerminator (dropWhile isSpace r4)
                  then Some (takeWhile isSpace line, takeWhile isHash r1, dropWhile isSpace r4)
                  else None)
            else if 2 \<le> length (takeWhile isSpace r4) \<and>
                    \<not> isLineTerminator (last (takeWhile isSpace r4))
                 then Some (takeWhile isSpace line, takeWhile isHash r1, [last (takeWhile isSpace r4)])
                 else None)
      else None)"
  unfolding dupHeadMatch_def Let_def r1_def r2_def r3_def r4_def by (rule refl)

lemma dupHeadMatch_Some:
  assumes "dupHeadMatch line = Some (p1, p2, p3)"
  shows "p1 = takeWhile isSpace line" and "p2 = takeWhile isHash (dropWhile isSpace line)"
    and "p2 \<noteq> []" and "length p2 \<le> 6" and "set p3 \<subseteq> set line"
proof -
  define r1 where "r1 = dropWhile isSpace line"
  define r2 where "r2 = dropWhile isHash r1"
  define r3 where "r3 = dropWhile isSpace r2"
  define r4 where "r4 = dropWhile isHash r3"
  note eq = dupHeadMatch_unfold [of line, folded r1_def, folded r2_def, folded r3_def, folded r4_def]
  from assms [unfolded eq] have c: "1 \<le> length (takeWhile isHash r1)"
      "length (takeWhile isHash r1) \<le> 6" "takeWhile isSpace r4 \<noteq> []"
    by (simp_all split: if_splits)
  from assms [unfolded eq] have p: "p1 = takeWhile isSpace line" "p2 = takeWhile isHash r1"
    by (simp_all split: if_splits)
  from assms [unfolded eq] have p3: "p3 = dropWhile isSpace r4 \<or> p3 = [last (takeWhile isSpace r4)]"
    by (simp split: if_splits)
  show "p1 = takeWhile isSpace line" by (rule p(1))
  show "p2 = takeWhile isHash (dropWhile isSpace line)" using p(2) by (simp add: r1_def)
  show "p2 \<noteq> []" using c(1) p(2) by auto
  show "length p2 \<le> 6" using c(2) p(2) by simp
  have r4: "set r4 \<subseteq> set line"
    unfolding r4_def r3_def r2_def r1_def by (meson set_dropWhile_subset subset_trans)
  have t: "set (dropWhile isSpace r4) \<subseteq> set line"
    using r4 set_dropWhile_subset [of isSpace r4] by blast
  have "last (takeWhile isSpace r4) \<in> set (takeWhile isSpace r4)" using c(3) by simp
  then have w: "last (takeWhile isSpace r4) \<in> set line"
    using r4 set_takeWhile_subset [of isSpace r4] by blast
  from p3 t w show "set p3 \<subseteq> set line" by auto
qed

lemma capHeadMatch_Some:
  assumes "capHeadMatch line = Some (p1, p3)"
  shows "p1 = takeWhile isSpace line" and "set p3 \<subseteq> set line"
    and "7 \<le> length (takeWhile isHash (dropWhile isSpace line))"
proof -
  from assms have all: "p1 = takeWhile isSpace line \<and>
      7 \<le> length (takeWhile isHash (dropWhile isSpace line)) \<and>
      p3 = dropWhile isSpace (dropWhile isHash (dropWhile isSpace line))"
    unfolding capHeadMatch_def Let_def by (simp split: if_splits)
  from all show "p1 = takeWhile isSpace line"
    and "7 \<le> length (takeWhile isHash (dropWhile isSpace line))" by simp_all
  from all have "p3 = dropWhile isSpace (dropWhile isHash (dropWhile isSpace line))" by simp
  then show "set p3 \<subseteq> set line"
    by (meson set_dropWhile_subset subset_trans)
qed

lemma normHeadMatch_Some:
  assumes "normHeadMatch line = Some (p1, p2, p3)"
  shows "p1 = takeWhile isSpace line" and "\<exists>k\<ge>1. p2 = replicate k (CHR ''#'')"
    and "set p3 \<subseteq> set line"
proof -
  let ?r1 = "dropWhile isSpace line"
  let ?h = "length (takeWhile isHash ?r1)"
  from assms have all: "p1 = takeWhile isSpace line \<and> 1 \<le> ?h \<and>
     ((p2 = replicate 6 (CHR ''#'') \<and> p3 = drop 6 ?r1) \<or>
      (p2 = replicate ?h (CHR ''#'') \<and> p3 = dropWhile isBlank (drop ?h ?r1)) \<or>
      (2 \<le> ?h \<and> p2 = replicate (?h - 1) (CHR ''#'') \<and> p3 = drop (?h - 1) ?r1))"
    unfolding normHeadMatch_def Let_def by (simp split: if_splits)
  from all show "p1 = takeWhile isSpace line" by simp
  from all consider "p2 = replicate 6 (CHR ''#'')" | "1 \<le> ?h" "p2 = replicate ?h (CHR ''#'')"
    | "2 \<le> ?h" "p2 = replicate (?h - 1) (CHR ''#'')"
    by blast
  then show "\<exists>k\<ge>1. p2 = replicate k (CHR ''#'')"
  proof cases
    case 1
    then show ?thesis by (intro exI [of _ 6]) simp
  next
    case 2
    then show ?thesis by (intro exI [of _ ?h]) simp
  next
    case 3
    then show ?thesis by (intro exI [of _ "?h - 1"]) simp
  qed
  have a: "set (drop n ?r1) \<subseteq> set line" for n
    by (meson set_drop_subset set_dropWhile_subset subset_trans)
  have b: "set (dropWhile isBlank (drop n ?r1)) \<subseteq> set line" for n
    using a [of n] set_dropWhile_subset [of isBlank "drop n ?r1"] by blast
  from all consider "p3 = drop 6 ?r1" | "p3 = dropWhile isBlank (drop ?h ?r1)" | "p3 = drop (?h - 1) ?r1"
    by blast
  then show "set p3 \<subseteq> set line"
    using a b by cases simp_all
qed

lemma listBulletMatch_Some:
  assumes "listBulletMatch line = Some (p1, p2, b, p3, r)"
  shows "p1 = takeWhile isSpace line" and "p2 \<in> {CHR ''-'', CHR ''+'', CHR ''*''}"
    and "line = p1 @ [p2] @ b @ [p3] @ r"
proof -
  from assms obtain r2 where r2: "dropWhile isSpace line = p2 # r2"
    and p2: "p2 \<in> {CHR ''-'', CHR ''+'', CHR ''*''}"
    and p1: "p1 = takeWhile isSpace line"
    and r4: "dropWhile isBlank r2 = p3 # r" and b: "b = takeWhile isBlank r2"
    unfolding listBulletMatch_def Let_def by (simp split: list.splits if_splits)
  show "p1 = takeWhile isSpace line" by (rule p1)
  show "p2 \<in> {CHR ''-'', CHR ''+'', CHR ''*''}" by (rule p2)
  have "line = takeWhile isSpace line @ dropWhile isSpace line" by simp
  also have "dropWhile isSpace line = p2 # (takeWhile isBlank r2 @ dropWhile isBlank r2)"
    by (simp add: r2)
  finally show "line = p1 @ [p2] @ b @ [p3] @ r"
    by (simp add: p1 b r4)
qed

lemma listOrderedMatch_Some:
  assumes "listOrderedMatch line = Some (p1, p2, b, p3, r)"
  shows "p1 = takeWhile isSpace line"
    and "\<exists>d ds. p2 = d # ds \<and> isDigit d"
    and "line = p1 @ p2 @ b @ [p3] @ r"
proof -
  let ?r1 = "dropWhile isSpace line"
  from assms obtain r2 where ds: "takeWhile isDigit ?r1 \<noteq> []"
    and r2: "dropWhile isDigit ?r1 = CHR ''.'' # r2"
    and p1: "p1 = takeWhile isSpace line"
    and p2: "p2 = takeWhile isDigit ?r1 @ ''.''"
    and r4: "dropWhile isBlank r2 = p3 # r" and b: "b = takeWhile isBlank r2"
    unfolding listOrderedMatch_def Let_def by (simp split: list.splits if_splits)
  show "p1 = takeWhile isSpace line" by (rule p1)
  from ds obtain d ds' where d: "takeWhile isDigit ?r1 = d # ds'"
    by (cases "takeWhile isDigit ?r1") auto
  then have "d \<in> set (takeWhile isDigit ?r1)" by simp
  then have "isDigit d" by (auto dest: set_takeWhileD)
  with d p2 show "\<exists>d ds. p2 = d # ds \<and> isDigit d" by simp
  have "line = takeWhile isSpace line @ takeWhile isDigit ?r1 @ dropWhile isDigit ?r1" by simp
  also have "dropWhile isDigit ?r1 = CHR ''.'' # (takeWhile isBlank r2 @ dropWhile isBlank r2)"
    by (simp add: r2)
  finally show "line = p1 @ p2 @ b @ [p3] @ r"
    by (simp add: p1 p2 b r4)
qed

lemma rule_text_independent:
  "fst (dupHead line s) = fst (dupHead line [])"
  "fst (capHead line s) = fst (capHead line [])"
  "fst (normHead line s) = fst (normHead line [])"
  "fst (listBullet line s) = fst (listBullet line [])"
  "fst (listOrdered line s) = fst (listOrdered line [])"
  by (simp_all add: dupHead_def capHead_def normHead_def listBullet_def listOrdered_def Let_def
        split: option.splits prod.splits)

lemma fixLine_text_independent: "fst (fixLine line s) = fst (fixLine line [])"
proof -
  have "fst (fixLine line s) =
    fst (listOrdered (fst (listBullet (fst (normHead (fst (capHead (fst (dupHead line [])) [])) [])) [])) [])" for s
    unfolding fixLine_def case_prod_beta
    by (metis rule_text_independent)
  from this [of s] this [of "[]"] show ?thesis by simp
qed

lemma fenceMatch_plain_start:
  assumes "\<forall>x\<in>set p1. isSpace x" and "\<not> isSpace c" and "c \<noteq> CHR 0x60" and "c \<noteq> CHR ''~''"
  shows "fenceMatch (p1 @ c # r) = None"
proof -
  have "dropWhile isSpace (p1 @ c # r) = c # r"
    using assms(1,2) by (simp add: dropWhile_append3)
  then show ?thesis
    using assms(3,4) by (simp add: fenceMatch_def)
qed

lemma leading_space: "\<forall>x\<in>set (takeWhile isSpace line). isSpace x"
  by (rule takeWhile_all)

lemma hash_plain: "\<not> isSpace (CHR ''#'')" "CHR ''#'' \<noteq> CHR 0x60" "CHR ''#'' \<noteq> CHR ''~''"
  by (simp_all add: isSpace_def)

lemma dupHead_fence: "fenceMatch line = None \<Longrightarrow> fenceMatch (fst (dupHead line s)) = None"
proof (cases "dupHeadMatch line")
  case None
  then show "fenceMatch line = None \<Longrightarrow> ?thesis" by (simp add: dupHead_def)
next
  case (Some m)
  obtain p1 p2 p3 where m: "m = (p1, p2, p3)" by (cases m)
  note f = dupHeadMatch_Some [OF Some [unfolded m]]
  have "set p2 \<subseteq> {CHR ''#''}" unfolding f(2) by (rule set_hash_run)
  with f(3) obtain q where q: "p2 = CHR ''#'' # q" by (cases p2) auto
  have "fenceMatch (p1 @ CHR ''#'' # (q @ '' '' @ js_trim p3)) = None"
    unfolding f(1) by (intro fenceMatch_plain_start leading_space hash_plain)
  then show ?thesis by (simp add: dupHead_def Some m q)
qed

lemma capHead_fence: "fenceMatch line = None \<Longrightarrow> fenceMatch (fst (capHead line s)) = None"
proof (cases "capHeadMatch line")
  case None
  then show "fenceMatch line = None \<Longrightarrow> ?thesis" by (simp add: capHead_def)
next
  case (Some m)
  obtain p1 p3 where m: "m = (p1, p3)" by (cases m)
  note f = capHeadMatch_Some [OF Some [unfolded m]]
  have "fenceMatch (p1 @ CHR ''#'' # (''##### '' @ p3)) = None"
    unfolding f(1) by (intro fenceMatch_plain_start leading_space hash_plain)
  then show ?thesis by (simp add: capHead_def Some m)
qed

lemma normHead_fence: "fenceMatch line = None \<Longrightarrow> fenceMatch (fst (normHead line s)) = None"
proof (cases "normHeadMatch line")
  case None
  then show "fenceMatch line = None \<Longrightarrow> ?thesis" by (simp add: normHead_def)
next
  case (Some m)
  obtain p1 p2 p3 where m: "m = (p1, p2, p3)" by (cases m)
  note f = normHeadMatch_Some [OF Some [unfolded m]]
  from f(2) obtain k where "p2 = CHR ''#'' # replicate k (CHR ''#'')"
    by (metis Suc_le_D One_nat_def replicate_Suc)
  moreover have "fenceMatch (p1 @ CHR ''#'' # (replicate k (CHR ''#'') @ '' '' @ p3)) = None"
    unfolding f(1) by (intro fenceMatch_plain_start leading_space hash_plain)
  ultimately show ?thesis by (simp add: normHead_def Some m Let_def)
qed

lemma listBullet_fence: "fenceMatch line = None \<Longrightarrow> fenceMatch (fst (listBullet line s)) = None"
proof (cases "listBulletMatch line")
  case None
  then show "fenceMatch line = None \<Longrightarrow> ?thesis" by (simp add: listBullet_def)
next
  case (Some m)
  obtain p1 p2 b p3 r where m: "m = (p1, p2, b, p3, r)" by (cases m)
  note f = listBulletMatch_Some [OF Some [unfolded m]]
  from f(2) have "\<not> isSpace p2" "p2 \<noteq> CHR 0x60" "p2 \<noteq> CHR ''~''"
    by (auto simp: isSpace_def)
  then have "fenceMatch (p1 @ p2 # ('' '' @ [p3] @ r)) = None"
    unfolding f(1) by (intro fenceMatch_plain_start leading_space)
  then show ?thesis by (simp add: listBullet_def Some m)
qed

lemma digit_plain: "isDigit d \<Longrightarrow> \<not> isSpace d \<and> d \<noteq> CHR 0x60 \<and> d \<noteq> CHR ''~''"
  by (auto simp: isDigit_def isSpace_def)

lemma listOrdered_fence: "fenceMatch line = None \<Longrightarrow> fenceMatch (fst (listOrdered line s)) = None"
proof (cases "listOrderedMatch line")
  case None
  then show "fenceMatch line = None \<Longrightarrow> ?thesis" by (simp add: listOrdered_def)
next
  case (Some m)
  obtain p1 p2 b p3 r where m: "m = (p1, p2, b, p3, r)" by (cases m)
  note f = listOrderedMatch_Some [OF Some [unfolded m]]
  from f(2) obtain d ds where d: "p2 = d # ds" "isDigit d" by blast
  from digit_plain [OF d(2)] have "fenceMatch (p1 @ d # (ds @ '' '' @ [p3] @ r)) = None"
    unfolding f(1) by (intro fenceMatch_plain_start leading_space) simp_all
  then show ?thesis by (simp add: listOrdered_def Some m d(1))
qed

lemma fixLine_fence: "fenceMatch line = None \<Longrightarrow> fenceMatch (fst (fixLine line s)) = None"
  unfolding fixLine_def case_prod_beta
  by (intro listOrdered_fence listBullet_fence normHead_fence capHead_fence dupHead_fence)

lemma dupHead_chars: "set (fst (dupHead line s)) \<subseteq> set line \<union> {CHR '' '', CHR ''#''}"
proof (cases "dupHeadMatch line")
  case None
  then show ?thesis by (auto simp: dupHead_def)
next
  case (Some m)
  obtain p1 p2 p3 where m: "m = (p1, p2, p3)" by (cases m)
  note f = dupHeadMatch_Some [OF Some [unfolded m]]
  have "set p1 \<subseteq> set line" unfolding f(1) by (rule set_takeWhile_subset)
  moreover have "set p2 \<subseteq> {CHR ''#''}" unfolding f(2) by (rule set_hash_run)
  moreover have "set (js_trim p3) \<subseteq> set line" using js_trim_subset [of p3] f(5) by blast
  ultimately show ?thesis by (auto simp: dupHead_def Some m)
qed

lemma capHead_chars: "set (fst (capHead line s)) \<subseteq> set line \<union> {CHR '' '', CHR ''#''}"
proof (cases "capHeadMatch line")
  case None
  then show ?thesis by (auto simp: capHead_def)
next
  case (Some m)
  obtain p1 p3 where m: "m = (p1, p3)" by (cases m)
  note f = capHeadMatch_Some [OF Some [unfolded m]]
  have "set p1 \<subseteq> set line" unfolding f(1) by (rule set_takeWhile_subset)
  with f(2) show ?thesis by (auto simp: capHead_def Some m)
qed

lemma normHead_chars: "set (fst (normHead line s)) \<subseteq> set line \<union> {CHR '' '', CHR ''#''}"
proof (cases "normHeadMatch line")
  case None
  then show ?thesis by (auto simp: normHead_def)
next
  case (Some m)
  obtain p1 p2 p3 where m: "m = (p1, p2, p3)" by (cases m)
  note f = normHeadMatch_Some [OF Some [unfolded m]]
  have "set p1 \<subseteq> set line" unfolding f(1) by (rule set_takeWhile_subset)
  moreover from f(2) have "set p2 \<subseteq> {CHR ''#''}" by auto
  ultimately show ?thesis using f(3) by (auto simp: normHead_def Some m Let_def)
qed

lemma listBullet_chars: "set (fst (listBullet line s)) \<subseteq> set line \<union> {CHR '' '', CHR ''#''}"
proof (cases "listBulletMatch line")
  case None
  then show ?thesis by (auto simp: listBullet_def)
next
  case (Some m)
  obtain p1 p2 b p3 r where m: "m = (p1, p2, b, p3, r)" by (cases m)
  note f = listBulletMatch_Some [OF Some [unfolded m]]
  have out: "fst (listBullet line s) = p1 @ [p2] @ '' '' @ [p3] @ r"
    by (simp add: listBullet_def Some m)
  have "set (p1 @ [p2] @ '' '' @ [p3] @ r) \<subseteq> set (p1 @ [p2] @ b @ [p3] @ r) \<union> {CHR '' '', CHR ''#''}"
    by auto
  also have "p1 @ [p2] @ b @ [p3] @ r = line" by (rule f(3) [symmetric])
  finally show ?thesis unfolding out .
qed

lemma listOrdered_chars: "set (fst (listOrdered line s)) \<subseteq> set line \<union> {CHR '' '', CHR ''#''}"
proof (cases "listOrderedMatch line")
  case None
  then show ?thesis by (auto simp: listOrdered_def)
next
  case (Some m)
  obtain p1 p2 b p3 r where m: "m = (p1, p2, b, p3, r)" by (cases m)
  note f = listOrderedMatch_Some [OF Some [unfolded m]]
  have out: "fst (listOrdered line s) = p1 @ p2 @ '' '' @ [p3] @ r"
    by (simp add: listOrdered_def Some m)
  have "set (p1 @ p2 @ '' '' @ [p3] @ r) \<subseteq> set (p1 @ p2 @ b @ [p3] @ r) \<union> {CHR '' '', CHR ''#''}"
    by auto
  also have "p1 @ p2 @ b @ [p3] @ r = line" by (rule f(3) [symmetric])
  finally show ?thesis unfolding out .
qed

lemma fixLine_chars: "set (fst (fixLine line s)) \<subseteq> set line \<union> {CHR '' '', CHR ''#''}"
proof -
  let ?A = "\<lambda>l. set l \<union> {CHR '' '', CHR ''#''}"
  let ?u1 = "fst (dupHead line s)"
  let ?u2 = "fst (capHead ?u1 (snd (dupHead line s)))"
  let ?u3 = "fst (normHead ?u2 (snd (capHead ?u1 (snd (dupHead line s)))))"
  let ?u4 = "fst (listBullet ?u3 (snd (normHead ?u2 (snd (capHead ?u1 (snd (dupHead line s)))))))"
  let ?u5 = "fst (listOrdered ?u4 (snd (listBullet ?u3 (snd (normHead ?u2 (snd (capHead ?u1 (snd (dupHead line s)))))))))"
  have 1: "set ?u1 \<subseteq> ?A line" by (rule dupHead_chars)
  have "set ?u2 \<subseteq> ?A ?u1" by (rule capHead_chars)
  with 1 have 2: "set ?u2 \<subseteq> ?A line" by blast
  have "set ?u3 \<subseteq> ?A ?u2" by (rule normHead_chars)
  with 2 have 3: "set ?u3 \<subseteq> ?A line" by blast
  have "set ?u4 \<subseteq> ?A ?u3" by (rule listBullet_chars)
  with 3 have 4: "set ?u4 \<subseteq> ?A line" by blast
  have "set ?u5 \<subseteq> ?A ?u4" by (rule listOrdered_chars)
  with 4 have 5: "set ?u5 \<subseteq> ?A line" by blast
  have "fst (fixLine line s) = ?u5" by (simp add: fixLine_def case_prod_beta)
  with 5 show ?thesis by simp
qed

lemma fixLine_no_newline: "CHR 0x0A \<notin> set line \<Longrightarrow> CHR 0x0A \<notin> set (fst (fixLine line s))"
  using fixLine_chars [of line s] by auto

lemma trimTrailing_subset: "set (trimTrailing line) \<subseteq> set line"
proof -
  have "set (rev (dropWhile isBlank (rev line))) \<subseteq> set line"
    using set_dropWhile_subset [of isBlank "rev line"] by simp
  then show ?thesis by (simp add: trimTrailing_def)
qed

lemma firstPass_no_newline:
  "\<forall>l\<in>set ls. CHR 0x0A \<notin> set l \<Longrightarrow> \<forall>l\<in>set (fst (firstPass st stats ls)). CHR 0x0A \<notin> set l"
proof (induction ls arbitrary: st stats)
  case Nil
  show ?case by simp
next
  case (Cons line rest)
  then have line: "CHR 0x0A \<notin> set line" and rest: "\<forall>l\<in>set rest. CHR 0x0A \<notin> set l"
    by simp_all
  note IH = Cons.IH [OF rest]
  from line have fx: "CHR 0x0A \<notin> set (fst (fixLine line stats))" by (rule fixLine_no_newline)
  show ?case
    using line fx IH by (simp add: case_prod_beta split: option.splits)
qed

lemma secondPass_no_newline:
  "\<forall>l\<in>set ls. CHR 0x0A \<notin> set l \<Longrightarrow> \<forall>l\<in>set (fst (secondPass st n ls)). CHR 0x0A \<notin> set l"
proof (induction ls arbitrary: st n)
  case Nil
  show ?case by simp
next
  case (Cons line rest)
  then have line: "CHR 0x0A \<notin> set line" and rest: "\<forall>l\<in>set rest. CHR 0x0A \<notin> set l"
    by simp_all
  note IH = Cons.IH [OF rest]
  from line have tr: "CHR 0x0A \<notin> set (trimTrailing line)"
    using trimTrailing_subset [of line] by blast
  show ?case
    using line tr IH by (simp add: case_prod_beta Let_def)
qed

text \<open>The lines of the result are the lines that the second loop leaves.\<close>

lemma fixMarkdownFormatting_lines:
  "js_split (fst (fixMarkdownFormatting text)) [CHR 0x0A] =
     fst (secondPass (False, []) 0 (fst (firstPass (False, []) [] (js_split text [CHR 0x0A]))))"
proof -
  let ?ls = "js_split text [CHR 0x0A]"
  let ?l1 = "fst (firstPass (False, []) [] ?ls)"
  let ?l2 = "fst (secondPass (False, []) 0 ?l1)"
  have "\<forall>l\<in>set ?ls. CHR 0x0A \<notin> set l"
    by (simp add: js_split_def split_at_char_free)
  then have "\<forall>l\<in>set ?l1. CHR 0x0A \<notin> set l" by (rule firstPass_no_newline)
  then have free: "\<forall>l\<in>set ?l2. CHR 0x0A \<notin> set l" by (rule secondPass_no_newline)
  have "length ?l2 = length ?ls" by (simp add: secondPass_length firstPass_length)
  then have ne: "?l2 \<noteq> []"
    using js_split_nonempty [of "[CHR 0x0A]" "text"] by auto
  have "fst (fixMarkdownFormatting text) = js_join [CHR 0x0A] ?l2"
    by (simp add: fixMarkdownFormatting_def case_prod_beta)
  then show ?thesis
    using split_join_lines [OF ne free] by (simp add: js_split_def)
qed

text \<open>
  Claim C10. The text that \<^const>\<open>fixMarkdownFormatting\<close> returns has as many lines as
  its input: both loops keep the number of lines, no rewrite puts a line feed into a
  line, and so splitting the joined result gives back the lines that were joined.
\<close>

theorem fixMarkdownFormatting_line_count:
  "length (js_split (fst (fixMarkdownFormatting text)) [CHR 0x0A]) =
   length (js_split text [CHR 0x0A])"
  by (simp add: fixMarkdownFormatting_lines secondPass_length firstPass_length)


theorem fixMarkdownFormatting_line_count_witness:
  "fst (fixMarkdownFormatting ''######## Title \<newline>-item\<newline>\<newline>10.  next  '') =
     ''###### Title\<newline>- item\<newline>\<newline>10. next  '' \<and>
   length (js_split (fst (fixMarkdownFormatting ''######## Title \<newline>-item\<newline>\<newline>10.  next  '')) [CHR 0x0A]) = 4 \<and>
   length (js_split ''######## Title \<newline>-item\<newline>\<newline>10.  next  '' [CHR 0x0A]) = 4"
proof -
  have v: "fst (fixMarkdownFormatting ''######## Title \<newline>-item\<newline>\<newline>10.  next  '') =
     ''###### Title\<newline>- item\<newline>\<newline>10. next  ''"
    by code_simp
  have n: "length (js_split ''######## Title \<newline>-item\<newline>\<newline>10.  next  '' [CHR 0x0A]) = 4"
    by (simp add: js_split_def)
  from fixMarkdownFormatting_line_count [of "''######## Title \<newline>-item\<newline>\<newline>10.  next  ''"] v n
  show ?thesis by simp
qed

lemma fenceStep_cong: "fenceMatch a = fenceMatch b \<Longrightarrow> fenceStep st a = fenceStep st b"
  by (simp add: fenceStep_def)

lemma fenceStep_None: "fenceMatch line = None \<Longrightarrow> fenceStep st line = st"
  by (simp add: fenceStep_def)

lemma foldl_fenceStep_cong:
  "map fenceMatch xs = map fenceMatch ys \<Longrightarrow> foldl fenceStep st xs = foldl fenceStep st ys"
proof (induction xs arbitrary: ys st)
  case Nil
  then show ?case by simp
next
  case (Cons x xs)
  then obtain y ys' where ys: "ys = y # ys'" "fenceMatch x = fenceMatch y"
    "map fenceMatch xs = map fenceMatch ys'"
    by (cases ys) auto
  from Cons.IH [OF ys(3)] fenceStep_cong [OF ys(2)] show ?case
    by (simp add: ys(1))
qed

lemma firstPass_Cons:
  "fst (firstPass st stats (line # rest)) =
     (if fenceMatch line = None \<and> \<not> fst st then fst (fixLine line stats) else line) #
     fst (firstPass (fenceStep st line)
            (if fenceMatch line = None \<and> \<not> fst st then snd (fixLine line stats) else stats) rest)"
  "snd (firstPass st stats (line # rest)) =
     snd (firstPass (fenceStep st line)
            (if fenceMatch line = None \<and> \<not> fst st then snd (fixLine line stats) else stats) rest)"
  by (simp_all add: case_prod_beta fenceStep_None split: option.splits)

lemma secondPass_Cons:
  "fst (secondPass st n (line # rest)) =
     (if fst (fenceStep st line) then line else trimTrailing line) #
     fst (secondPass (fenceStep st line)
            (if \<not> fst (fenceStep st line) \<and> trimTrailing line \<noteq> line then n + 1 else n) rest)"
  by (simp add: case_prod_beta Let_def)

lemma firstPass_fences: "map fenceMatch (fst (firstPass st stats ls)) = map fenceMatch ls"
proof (induction ls arbitrary: st stats)
  case Nil
  show ?case by simp
next
  case (Cons line rest)
  show ?case
    unfolding firstPass_Cons by (simp add: Cons.IH fixLine_fence)
qed

lemma firstPass_nth:
  "i < length ls \<Longrightarrow>
     fst (firstPass st stats ls) ! i =
       (if fenceMatch (ls ! i) = None \<and> \<not> fst (foldl fenceStep st (take i ls))
        then fst (fixLine (ls ! i) []) else ls ! i)"
proof (induction ls arbitrary: st stats i)
  case Nil
  then show ?case by simp
next
  case (Cons line rest)
  show ?case
  proof (cases i)
    case 0
    then show ?thesis
      unfolding firstPass_Cons using fixLine_text_independent [of line stats] by simp
  next
    case (Suc j)
    with Cons.prems have "j < length rest" by simp
    from Cons.IH [OF this] Suc show ?thesis
      unfolding firstPass_Cons by simp
  qed
qed

lemma secondPass_nth:
  "i < length ls \<Longrightarrow>
     fst (secondPass st n ls) ! i =
       (if fst (foldl fenceStep st (take (Suc i) ls)) then ls ! i else trimTrailing (ls ! i))"
proof (induction ls arbitrary: st n i)
  case Nil
  then show ?case by simp
next
  case (Cons line rest)
  show ?case
  proof (cases i)
    case 0
    then show ?thesis
      unfolding secondPass_Cons by simp
  next
    case (Suc j)
    with Cons.prems have "j < length rest" by simp
    from Cons.IH [OF this] Suc show ?thesis
      unfolding secondPass_Cons by simp
  qed
qed

lemma fenceBefore_Suc:
  "i < length ls \<Longrightarrow> fenceBefore ls (Suc i) = fenceStep (fenceBefore ls i) (ls ! i)"
  by (simp add: fenceBefore_def take_Suc_conv_app_nth)

text \<open>Line \<open>i\<close> of the result, from line \<open>i\<close> of the input and the fence state there.\<close>

lemma fixMarkdownFormatting_nth:
  assumes "i < length (js_split text [CHR 0x0A])"
  shows "js_split (fst (fixMarkdownFormatting text)) [CHR 0x0A] ! i =
    (let ls = js_split text [CHR 0x0A]; line = ls ! i in
     if fenceMatch line = None then
       (if fst (fenceBefore ls i) then line else trimTrailing (fst (fixLine line [])))
     else if fst (fenceBefore ls (Suc i)) then line else trimTrailing line)"
proof -
  let ?ls = "js_split text [CHR 0x0A]"
  let ?l1 = "fst (firstPass (False, []) [] ?ls)"
  have len: "i < length ?l1" using assms by (simp add: firstPass_length)
  have st: "foldl fenceStep (False, []) (take k ?l1) = fenceBefore ?ls k" for k
    unfolding fenceBefore_def
    by (intro foldl_fenceStep_cong) (simp add: take_map [symmetric] firstPass_fences)
  have l1: "?l1 ! i = (if fenceMatch (?ls ! i) = None \<and> \<not> fst (fenceBefore ?ls i)
        then fst (fixLine (?ls ! i) []) else ?ls ! i)"
    using firstPass_nth [OF assms, of "(False, [])" "[]"] by (simp add: fenceBefore_def)
  have out: "js_split (fst (fixMarkdownFormatting text)) [CHR 0x0A] ! i =
      (if fst (fenceBefore ?ls (Suc i)) then ?l1 ! i else trimTrailing (?l1 ! i))"
    using secondPass_nth [OF len, of "(False, [])" 0] by (simp add: fixMarkdownFormatting_lines st)
  show ?thesis
  proof (cases "fenceMatch (?ls ! i)")
    case None
    then have "fenceBefore ?ls (Suc i) = fenceBefore ?ls i"
      using assms by (simp add: fenceBefore_Suc fenceStep_None)
    with None show ?thesis by (simp add: out l1 Let_def)
  next
    case (Some mk)
    then show ?thesis by (simp add: out l1 Let_def)
  qed
qed

lemma run_split:
  assumes "\<forall>x\<in>set a. P x" and "b = [] \<or> \<not> P (hd b)"
  shows "takeWhile P (a @ b) = a" and "dropWhile P (a @ b) = b"
proof -
  from assms(2) have tb: "takeWhile P b = []" and db: "dropWhile P b = b"
    by (cases b; simp)+
  from assms(1) show "takeWhile P (a @ b) = a" by (simp add: takeWhile_append2 tb)
  from assms(1) show "dropWhile P (a @ b) = b" by (simp add: dropWhile_append2 db)
qed

lemma capHeadMatch_unfold:
  fixes line
  defines "r1 \<equiv> dropWhile isSpace line"
  defines "r2 \<equiv> dropWhile isHash r1"
  shows "capHeadMatch line =
     (if 7 \<le> length (takeWhile isHash r1) \<and> takeWhile isSpace r2 \<noteq> [] \<and>
         dropWhile isSpace r2 \<noteq> [] \<and> noLineTerminator (dropWhile isSpace r2)
      then Some (takeWhile isSpace line, dropWhile isSpace r2) else None)"
  unfolding capHeadMatch_def Let_def r1_def r2_def by (rule refl)

lemma normHeadMatch_unfold:
  fixes line
  defines "r1 \<equiv> dropWhile isSpace line"
  defines "h \<equiv> length (takeWhile isHash r1)"
  defines "r3 \<equiv> dropWhile isBlank (drop h r1)"
  shows "normHeadMatch line =
     (if length (takeWhile isSpace line) \<le> 3 \<and> 1 \<le> h then
           (if 6 < h then
              (if noLineTerminator (drop 6 r1)
               then Some (takeWhile isSpace line, replicate 6 (CHR ''#''), drop 6 r1) else None)
            else
              (if r3 \<noteq> [] \<and> \<not> isSpace (hd r3) then
                 (if noLineTerminator r3 then Some (takeWhile isSpace line, replicate h (CHR ''#''), r3) else None)
               else if 2 \<le> h \<and> noLineTerminator (drop (h - 1) r1)
                    then Some (takeWhile isSpace line, replicate (h - 1) (CHR ''#''), drop (h - 1) r1)
                    else None))
         else None)"
  unfolding normHeadMatch_def Let_def r1_def h_def r3_def by (rule refl)

lemma space_not_hash: "isSpace x \<Longrightarrow> \<not> isHash x"
  by (auto simp: isSpace_def isHash_def)

lemma blank_space: "isBlank x \<Longrightarrow> isSpace x"
  by (auto simp: isSpace_def isBlank_def)

lemma hashes_run: "\<forall>x\<in>set (replicate k (CHR ''#'')). isHash x"
  by (simp add: isHash_def)

text \<open>The parts of a line made of whitespace, hashes, whitespace and text.\<close>

lemma heading_parts:
  assumes "\<forall>x\<in>set p1. isSpace x" and "0 < k" and "w \<noteq> []" and "\<forall>x\<in>set w. isSpace x"
    and "t \<noteq> []" and "\<not> isSpace (hd t)"
  shows "takeWhile isSpace (p1 @ replicate k (CHR ''#'') @ w @ t) = p1"
    and "dropWhile isSpace (p1 @ replicate k (CHR ''#'') @ w @ t) = replicate k (CHR ''#'') @ w @ t"
    and "takeWhile isHash (replicate k (CHR ''#'') @ w @ t) = replicate k (CHR ''#'')"
    and "dropWhile isHash (replicate k (CHR ''#'') @ w @ t) = w @ t"
    and "takeWhile isSpace (w @ t) = w"
    and "dropWhile isSpace (w @ t) = t"
proof -
  have h: "\<not> isSpace (hd (replicate k (CHR ''#'') @ w @ t))"
    using assms(2) by (cases k) (simp_all add: isSpace_def)
  show "takeWhile isSpace (p1 @ replicate k (CHR ''#'') @ w @ t) = p1"
    and "dropWhile isSpace (p1 @ replicate k (CHR ''#'') @ w @ t) = replicate k (CHR ''#'') @ w @ t"
    using assms(1) h by (intro run_split; simp)+
  have w: "\<not> isHash (hd (w @ t))"
    using assms(3,4) by (cases w) (simp_all add: space_not_hash)
  show "takeWhile isHash (replicate k (CHR ''#'') @ w @ t) = replicate k (CHR ''#'')"
    and "dropWhile isHash (replicate k (CHR ''#'') @ w @ t) = w @ t"
    using w by (intro run_split hashes_run; simp)+
  show "takeWhile isSpace (w @ t) = w" and "dropWhile isSpace (w @ t) = t"
    using assms(4,6) by (intro run_split; simp)+
qed

lemma deep_heading_fixLine:
  assumes "\<forall>x\<in>set p1. isSpace x" and "7 \<le> k" and "w \<noteq> []" and "\<forall>x\<in>set w. isSpace x"
    and "t \<noteq> []" and "\<not> isSpace (hd t)" and "noLineTerminator t"
  shows "fenceMatch (p1 @ replicate k (CHR ''#'') @ w @ t) = None"
    and "capHeadMatch (p1 @ replicate k (CHR ''#'') @ w @ t) = Some (p1, t)"
    and "fst (fixLine (p1 @ replicate k (CHR ''#'') @ w @ t) s) = p1 @ ''###### '' @ t"
proof -
  let ?line = "p1 @ replicate k (CHR ''#'') @ w @ t"
  let ?out = "p1 @ ''###### '' @ t"
  from assms(2) have k: "0 < k" by simp
  note parts = heading_parts [OF assms(1) k assms(3,4,5,6)]
  from assms(2) obtain k' where k': "k = Suc k'" by (cases k) auto
  have "fenceMatch (p1 @ CHR ''#'' # (replicate k' (CHR ''#'') @ w @ t)) = None"
    using assms(1) by (intro fenceMatch_plain_start hash_plain)
  then show fence: "fenceMatch ?line = None" by (simp add: k')
  have dup: "dupHeadMatch ?line = None"
    using assms(2) by (simp add: dupHeadMatch_unfold parts)
  show cap: "capHeadMatch ?line = Some (p1, t)"
    using assms(2,3,5,7) by (simp add: capHeadMatch_unfold parts)
  define out where "out = p1 @ ''###### '' @ t"
  have out_eq: "out = p1 @ replicate 6 (CHR ''#'') @ '' '' @ t"
    by (simp add: out_def numeral_eq_Suc)
  have sp: "\<forall>x\<in>set '' ''. isSpace x" by (simp add: isSpace_def)
  note parts6 = heading_parts [OF assms(1) _ _ sp assms(5,6), of 6, simplified, folded out_eq]
  have "\<not> isBlank (hd t)" using assms(6) blank_space by blast
  then have "dropWhile isBlank t = t" using assms(5) by (cases t) simp_all
  then have blank: "dropWhile isBlank (CHR '' '' # t) = t"
    by (simp add: isBlank_def)
  have tw: "takeWhile isSpace out = p1"
    and dw: "dropWhile isSpace out = replicate 6 (CHR ''#'') @ CHR '' '' # t"
    using heading_parts(1,2) [OF assms(1) _ _ sp assms(5,6), of 6] by (simp_all add: out_eq)
  have th: "takeWhile isHash (replicate 6 (CHR ''#'') @ CHR '' '' # t) = replicate 6 (CHR ''#'')"
    and dh: "dropWhile isHash (replicate 6 (CHR ''#'') @ CHR '' '' # t) = CHR '' '' # t"
    using heading_parts(3,4) [OF assms(1) _ _ sp assms(5,6), of 6] by simp_all
  have norm: "fst (normHead out s') = out" for s'
  proof (cases "length p1 \<le> 3")
    case True
    have "normHeadMatch out = Some (p1, replicate 6 (CHR ''#''), t)"
      using True assms(5,6,7) blank by (simp add: normHeadMatch_unfold tw dw th)
    then show ?thesis by (simp add: normHead_def Let_def out_eq)
  next
    case False
    have "normHeadMatch out = None"
      using False by (simp add: normHeadMatch_unfold tw)
    then show ?thesis by (simp add: normHead_def)
  qed
  have hd6: "replicate 6 (CHR ''#'') @ CHR '' '' # t = CHR ''#'' # (replicate 5 (CHR ''#'') @ '' '' @ t)"
    by (simp add: numeral_eq_Suc)
  have bullet: "listBulletMatch out = None"
    unfolding listBulletMatch_def Let_def dw hd6 by simp
  have ordered: "listOrderedMatch out = None"
    unfolding listOrderedMatch_def Let_def dw hd6 by (simp add: isDigit_def)
  have 1: "dupHead ?line s = (?line, s)" by (simp add: dupHead_def dup)
  have 2: "fst (capHead ?line s) = out" by (simp add: capHead_def cap out_def)
  have 4: "fst (listBullet out s') = out" for s' by (simp add: listBullet_def bullet)
  have 5: "fst (listOrdered out s') = out" for s' by (simp add: listOrdered_def ordered)
  have "fst (fixLine ?line s) = out"
    unfolding fixLine_def case_prod_beta 1 fst_conv snd_conv 2 norm 4 5 by (rule refl)
  then show "fst (fixLine ?line s) = ?out" by (simp only: out_def)
qed

lemma statCount_inc_same: "statCount k (inc k by s) = statCount k s + by"
  by (induction s) (auto simp: statCount_def)

lemma statCount_inc_other: "k' \<noteq> k \<Longrightarrow> statCount k' (inc k by s) = statCount k' s"
  by (induction s) (auto simp: statCount_def)

lemma cap_count_other_rules:
  "statCount ''heading_cap_to_h6'' (snd (dupHead line s)) = statCount ''heading_cap_to_h6'' s"
  "statCount ''heading_cap_to_h6'' (snd (normHead line s)) = statCount ''heading_cap_to_h6'' s"
  "statCount ''heading_cap_to_h6'' (snd (listBullet line s)) = statCount ''heading_cap_to_h6'' s"
  "statCount ''heading_cap_to_h6'' (snd (listOrdered line s)) = statCount ''heading_cap_to_h6'' s"
  by (simp_all add: dupHead_def normHead_def listBullet_def listOrdered_def Let_def
        statCount_inc_other split: option.splits prod.splits)

lemma cap_count_capHead:
  "statCount ''heading_cap_to_h6'' (snd (capHead line s)) =
     statCount ''heading_cap_to_h6'' s + (if capHeadMatch line = None then 0 else 1)"
  by (simp add: capHead_def statCount_inc_same split: option.splits prod.splits)

lemma capHeadMatch_after_dupHead:
  "capHeadMatch (fst (dupHead line s)) = None \<longleftrightarrow> capHeadMatch line = None"
proof (cases "dupHeadMatch line")
  case None
  then show ?thesis by (simp add: dupHead_def)
next
  case (Some m)
  obtain p1 p2 p3 where m: "m = (p1, p2, p3)" by (cases m)
  note f = dupHeadMatch_Some [OF Some [unfolded m]]
  have a: "capHeadMatch line = None"
  proof (rule ccontr)
    assume "capHeadMatch line \<noteq> None"
    then obtain q1 q3 where "capHeadMatch line = Some (q1, q3)" by auto
    from capHeadMatch_Some(3) [OF this] f(2,4) show False by simp
  qed
  let ?out = "p1 @ p2 @ CHR '' '' # js_trim p3"
  have p1: "\<forall>x\<in>set p1. isSpace x" unfolding f(1) by (rule takeWhile_all)
  have p2: "\<forall>x\<in>set p2. isHash x" unfolding f(2) by (rule takeWhile_all)
  from f(3) p2 have "\<not> isSpace (hd (p2 @ CHR '' '' # js_trim p3))"
    by (cases p2) (auto simp: isHash_def isSpace_def)
  with p1 have d: "dropWhile isSpace ?out = p2 @ CHR '' '' # js_trim p3"
    by (intro run_split(2)) simp_all
  have "\<not> isHash (hd (CHR '' '' # js_trim p3))" by (simp add: isHash_def)
  with p2 have t: "takeWhile isHash (p2 @ CHR '' '' # js_trim p3) = p2"
    by (intro run_split(1)) simp_all
  have b: "capHeadMatch ?out = None"
  proof (rule ccontr)
    assume "capHeadMatch ?out \<noteq> None"
    then obtain q1 q3 where "capHeadMatch ?out = Some (q1, q3)" by auto
    from capHeadMatch_Some(3) [OF this] f(4) show False by (simp add: d t)
  qed
  from a b show ?thesis by (simp add: dupHead_def Some m)
qed

lemma cap_count_fixLine:
  "statCount ''heading_cap_to_h6'' (snd (fixLine line s)) =
     statCount ''heading_cap_to_h6'' s + (if capHeadMatch line = None then 0 else 1)"
proof -
  have "statCount ''heading_cap_to_h6'' (snd (fixLine line s)) =
      statCount ''heading_cap_to_h6'' (snd (capHead (fst (dupHead line s)) (snd (dupHead line s))))"
    by (simp add: fixLine_def case_prod_beta cap_count_other_rules)
  also have "\<dots> = statCount ''heading_cap_to_h6'' s +
      (if capHeadMatch (fst (dupHead line s)) = None then 0 else 1)"
    by (simp only: cap_count_capHead cap_count_other_rules)
  finally show ?thesis by (simp only: capHeadMatch_after_dupHead)
qed

lemma capHeadMatch_not_fence: "capHeadMatch line \<noteq> None \<Longrightarrow> fenceMatch line = None"
proof -
  assume "capHeadMatch line \<noteq> None"
  then obtain p1 p3 where "capHeadMatch line = Some (p1, p3)" by auto
  from capHeadMatch_Some(3) [OF this]
  obtain c r where r: "takeWhile isHash (dropWhile isSpace line) = c # r"
    by (cases "takeWhile isHash (dropWhile isSpace line)") auto
  then have "c \<in> set (takeWhile isHash (dropWhile isSpace line))" by simp
  then have c: "c = CHR ''#''" by (auto dest: set_takeWhileD simp: isHash_def)
  show ?thesis
  proof (cases "dropWhile isSpace line")
    case Nil
    from r [unfolded Nil] show ?thesis by simp
  next
    case (Cons a as)
    from r [unfolded Cons] c have "a = CHR ''#''" by (simp split: if_splits)
    with Cons show ?thesis by (simp add: fenceMatch_def)
  qed
qed

text \<open>The lines that the first loop rewrites by the cap rule, counted.\<close>

lemma firstPass_cap_count:
  "statCount ''heading_cap_to_h6'' (snd (firstPass st s ls)) =
     statCount ''heading_cap_to_h6'' s +
     card {j. j < length ls \<and> \<not> fst (foldl fenceStep st (take j ls)) \<and> capHeadMatch (ls ! j) \<noteq> None}"
proof (induction ls arbitrary: st s)
  case Nil
  show ?case by simp
next
  case (Cons line rest)
  let ?P = "\<lambda>st ls j. j < length ls \<and> \<not> fst (foldl fenceStep st (take j ls)) \<and> capHeadMatch (ls ! j) \<noteq> None"
  let ?here = "\<not> fst st \<and> capHeadMatch line \<noteq> None"
  have set_eq: "{j. ?P st (line # rest) j} =
      (if ?here then {0} else {}) \<union> Suc ` {j. ?P (fenceStep st line) rest j}"
  proof (intro set_eqI iffI)
    fix j assume "j \<in> {j. ?P st (line # rest) j}"
    then show "j \<in> (if ?here then {0} else {}) \<union> Suc ` {j. ?P (fenceStep st line) rest j}"
      by (cases j) auto
  next
    fix j assume "j \<in> (if ?here then {0} else {}) \<union> Suc ` {j. ?P (fenceStep st line) rest j}"
    then show "j \<in> {j. ?P st (line # rest) j}"
      by (auto split: if_splits)
  qed
  have fin: "finite {j. ?P (fenceStep st line) rest j}" by simp
  have card_eq: "card {j. ?P st (line # rest) j} =
      (if ?here then 1 else 0) + card {j. ?P (fenceStep st line) rest j}"
  proof -
    have "card {j. ?P st (line # rest) j} =
        card ((if ?here then {0} else {}) \<union> Suc ` {j. ?P (fenceStep st line) rest j})"
      by (simp only: set_eq)
    also have "\<dots> =
        card (if ?here then {0::nat} else {}) + card (Suc ` {j. ?P (fenceStep st line) rest j})"
      using fin by (intro card_Un_disjoint) auto
    also have "card (Suc ` {j. ?P (fenceStep st line) rest j}) = card {j. ?P (fenceStep st line) rest j}"
      by (intro card_image) simp
    also have "card (if ?here then {0::nat} else {}) = (if ?here then 1 else 0)"
      by simp
    finally show ?thesis .
  qed
  define A where "A = card {j. ?P st (line # rest) j}"
  define B where "B = card {j. ?P (fenceStep st line) rest j}"
  define h :: nat where "h = (if ?here then 1 else 0)"
  define e :: nat where "e = (if capHeadMatch line = None then 0 else 1)"
  define L where "L = statCount ''heading_cap_to_h6'' (snd (firstPass st s (line # rest)))"
  define n0 where "n0 = statCount ''heading_cap_to_h6'' s"
  have AB: "A = h + B" unfolding A_def B_def h_def by (rule card_eq)
  have "L = n0 + A"
  proof (cases "fenceMatch line = None \<and> \<not> fst st")
    case True
    then have c: "(fenceMatch line = None \<and> \<not> fst st) = True" by simp
    have "snd (firstPass st s (line # rest)) =
        snd (firstPass (fenceStep st line) (snd (fixLine line s)) rest)"
      by (simp only: firstPass_Cons c if_True)
    then have "L = n0 + e + B"
      unfolding L_def n0_def e_def B_def by (simp only: Cons.IH cap_count_fixLine)
    moreover from True have "h = e" unfolding h_def e_def by simp
    ultimately show ?thesis using AB by simp
  next
    case False
    then have c: "(fenceMatch line = None \<and> \<not> fst st) = False" by simp
    have "snd (firstPass st s (line # rest)) = snd (firstPass (fenceStep st line) s rest)"
      by (simp only: firstPass_Cons c if_False)
    then have "L = n0 + B"
      unfolding L_def n0_def B_def by (simp only: Cons.IH)
    moreover from False have "\<not> ?here" using capHeadMatch_not_fence [of line] by blast
    then have "h = 0" unfolding h_def by (simp only: if_False)
    ultimately show ?thesis using AB by simp
  qed
  then show ?case unfolding L_def n0_def A_def .
qed

lemma fixMarkdownFormatting_cap_count:
  "statCount ''heading_cap_to_h6'' (snd (fixMarkdownFormatting text)) =
     card {j. j < length (js_split text [CHR 0x0A]) \<and>
              \<not> fst (fenceBefore (js_split text [CHR 0x0A]) j) \<and>
              capHeadMatch (js_split text [CHR 0x0A] ! j) \<noteq> None}"
proof -
  have "statCount ''heading_cap_to_h6'' (snd (fixMarkdownFormatting text)) =
      statCount ''heading_cap_to_h6'' (snd (firstPass (False, []) [] (js_split text [CHR 0x0A])))"
    by (simp add: fixMarkdownFormatting_def case_prod_beta statCount_inc_other)
  moreover have "statCount ''heading_cap_to_h6'' [] = 0" by (simp add: statCount_def)
  ultimately show ?thesis
    by (simp add: firstPass_cap_count fenceBefore_def)
qed

lemma fenceMatch_Some:
  assumes "fenceMatch l = Some mk"
  shows "mk \<in> {[CHR 0x60, CHR 0x60, CHR 0x60], ''~~~''}"
    and "startsWith (dropWhile isSpace l) mk"
  using assms by (auto simp: fenceMatch_def Let_def split: if_splits)

lemma fenceMatch_of_marker:
  assumes "mk \<in> {[CHR 0x60, CHR 0x60, CHR 0x60], ''~~~''}"
    and "startsWith (dropWhile isSpace l) mk"
  shows "fenceMatch l = Some mk"
proof -
  from assms consider "mk = [CHR 0x60, CHR 0x60, CHR 0x60]" | "mk = ''~~~''" by auto
  then show ?thesis
  proof cases
    case 1
    with assms(2) show ?thesis by (simp add: fenceMatch_def)
  next
    case 2
    with assms(2) have "\<not> startsWith (dropWhile isSpace l) [CHR 0x60, CHR 0x60, CHR 0x60]"
      by (cases "dropWhile isSpace l") auto
    with 2 assms(2) show ?thesis by (simp add: fenceMatch_def)
  qed
qed

lemma fenceStep_marker:
  assumes "fst st \<longrightarrow> snd st \<in> {[CHR 0x60, CHR 0x60, CHR 0x60], ''~~~''}"
  shows "fst (fenceStep st l) \<longrightarrow> snd (fenceStep st l) \<in> {[CHR 0x60, CHR 0x60, CHR 0x60], ''~~~''}"
proof (cases "fenceMatch l")
  case None
  with assms show ?thesis by (simp add: fenceStep_def)
next
  case (Some mk)
  from fenceMatch_Some(1) [OF Some] assms show ?thesis
    by (simp add: fenceStep_def Some)
qed

lemma foldl_fenceStep_marker:
  assumes "fst st \<longrightarrow> snd st \<in> {[CHR 0x60, CHR 0x60, CHR 0x60], ''~~~''}"
  shows "fst (foldl fenceStep st ls) \<longrightarrow>
         snd (foldl fenceStep st ls) \<in> {[CHR 0x60, CHR 0x60, CHR 0x60], ''~~~''}"
  using assms
proof (induction ls arbitrary: st)
  case Nil
  then show ?case by simp
next
  case (Cons l ls)
  from Cons.IH [OF fenceStep_marker [OF Cons.prems]] show ?case by simp
qed

lemma fenceBefore_marker:
  "fst (fenceBefore ls j) \<longrightarrow> snd (fenceBefore ls j) \<in> {[CHR 0x60, CHR 0x60, CHR 0x60], ''~~~''}"
  unfolding fenceBefore_def by (rule foldl_fenceStep_marker) simp

lemma fenceStep_open:
  "\<not> fst st \<Longrightarrow> fst (fenceStep st l) \<Longrightarrow> startsWith (dropWhile isSpace l) (snd (fenceStep st l))"
proof (cases "fenceMatch l")
  case None
  then show "\<not> fst st \<Longrightarrow> fst (fenceStep st l) \<Longrightarrow> ?thesis" by (simp add: fenceStep_def)
next
  case (Some mk)
  assume "\<not> fst st"
  with fenceMatch_Some(2) [OF Some] show ?thesis by (simp add: fenceStep_def Some)
qed

lemma fenceStep_stay:
  "fst st \<Longrightarrow> fst (fenceStep st l) \<Longrightarrow> fenceStep st l = st"
  by (cases "fenceMatch l") (simp_all add: fenceStep_def split: if_splits)

lemma fenceStep_close:
  assumes "fst st" and "snd st \<in> {[CHR 0x60, CHR 0x60, CHR 0x60], ''~~~''}"
  shows "\<not> fst (fenceStep st l) \<longleftrightarrow> startsWith (dropWhile isSpace l) (snd st)"
proof
  assume c: "\<not> fst (fenceStep st l)"
  show "startsWith (dropWhile isSpace l) (snd st)"
  proof (cases "fenceMatch l")
    case None
    with c assms(1) show ?thesis by (simp add: fenceStep_def)
  next
    case (Some mk)
    with c assms(1) have "mk = snd st" by (simp add: fenceStep_def split: if_splits)
    with fenceMatch_Some(2) [OF Some] show ?thesis by simp
  qed
next
  assume "startsWith (dropWhile isSpace l) (snd st)"
  from fenceMatch_of_marker [OF assms(2) this] assms(1)
  show "\<not> fst (fenceStep st l)" by (simp add: fenceStep_def)
qed

lemma trimTrailing_id: "s \<noteq> [] \<Longrightarrow> \<not> isBlank (last s) \<Longrightarrow> trimTrailing s = s"
proof -
  assume "s \<noteq> []" "\<not> isBlank (last s)"
  then have "dropWhile isBlank (rev s) = rev s"
    by (cases s rule: rev_cases) simp_all
  then show ?thesis by (simp add: trimTrailing_def)
qed

lemma fenceMatch_None_iff:
  "fenceMatch l = None \<longleftrightarrow>
     \<not> startsWith (dropWhile isSpace l) [CHR 0x60, CHR 0x60, CHR 0x60] \<and>
     \<not> startsWith (dropWhile isSpace l) ''~~~''"
  by (simp add: fenceMatch_def Let_def)

lemma fenceStep_opens:
  assumes "\<not> fst st" and "mk \<in> {[CHR 0x60, CHR 0x60, CHR 0x60], ''~~~''}"
    and "startsWith (dropWhile isSpace l) mk"
  shows "fenceStep st l = (True, mk)"
  using fenceMatch_of_marker [OF assms(2,3)] assms(1) by (simp add: fenceStep_def)

lemma fenceBefore_0: "fenceBefore ls 0 = (False, [])"
  by (simp add: fenceBefore_def)

lemma fenceBefore_no_fence:
  "i \<le> length ls \<Longrightarrow> \<forall>k<i. fenceMatch (ls ! k) = None \<Longrightarrow> fenceBefore ls i = (False, [])"
proof (induction i)
  case 0
  show ?case by (rule fenceBefore_0)
next
  case (Suc i)
  then have "fenceBefore ls i = (False, [])" and "fenceMatch (ls ! i) = None" and "i < length ls"
    by simp_all
  then show ?case by (simp add: fenceBefore_Suc fenceStep_None)
qed

lemma fenceBefore_in_block:
  assumes "fenceBefore ls (Suc a) = (True, mk)"
    and "mk \<in> {[CHR 0x60, CHR 0x60, CHR 0x60], ''~~~''}"
  shows "a < i \<Longrightarrow> i \<le> length ls \<Longrightarrow>
     \<forall>k. a < k \<and> k < i \<longrightarrow> \<not> startsWith (dropWhile isSpace (ls ! k)) mk \<Longrightarrow>
     fenceBefore ls i = (True, mk)"
proof (induction i)
  case 0
  then show ?case by simp
next
  case (Suc i)
  show ?case
  proof (cases "a = i")
    case True
    with assms(1) show ?thesis by simp
  next
    case False
    with Suc.prems have ai: "a < i" and il: "i < length ls" by simp_all
    from Suc.prems have "\<forall>k. a < k \<and> k < i \<longrightarrow> \<not> startsWith (dropWhile isSpace (ls ! k)) mk"
      by simp
    with Suc.IH ai il have st: "fenceBefore ls i = (True, mk)" by simp
    from Suc.prems ai have no: "\<not> startsWith (dropWhile isSpace (ls ! i)) mk" by simp
    have "fst (fenceStep (True, mk) (ls ! i))"
      using fenceStep_close [of "(True, mk)" "ls ! i"] assms(2) no by simp
    then have "fenceStep (True, mk) (ls ! i) = (True, mk)"
      by (intro fenceStep_stay) simp_all
    with st il show ?thesis by (simp add: fenceBefore_Suc)
  qed
qed

text \<open>
  Claim C9. Let line \<open>i\<close> of the input be a heading with more than six hashes: leading
  whitespace \<open>p1\<close>, \<open>k \<ge> 7\<close> hashes, whitespace \<open>w\<close>, and a text \<open>t\<close> that starts with a
  character that is not whitespace and holds no line terminator (no carriage return).
  A line starts with a marker when, behind its leading whitespace, it goes on with the
  three characters of the marker.

  \<^item> If the loops reach the line outside a fence, line \<open>i\<close> of the result is
    \<open>p1\<close>, six hashes, one space and \<open>t\<close>, put through the rule of the second loop for
    trailing spaces and tabs (which changes nothing when \<open>t\<close> does not end in one); the
    line is counted under
    \<^verbatim>\<open>heading_cap_to_h6\<close>, whose count is the number of lines outside fences that the
    pattern of the cap rule matches.
  \<^item> If they reach it inside an open fence, line \<open>i\<close> of the result is the line itself.
  \<^item> The marker of an open fence is three backticks or three tildes; the line on which
    a fence opens starts with the marker that is then remembered; the marker stays
    while the fence is open; and an open fence is closed by a line exactly when that
    line starts with the remembered marker.
  \<^item> The loops start outside a fence. Outside a fence, a line that starts with three
    backticks or with three tildes opens a fence with this marker, and any other line
    leaves the state outside.
  \<^item> So, read from the text alone: when no line before line \<open>i\<close> starts with three
    backticks or three tildes, the heading is capped. When a line \<open>a\<close> before it starts
    with a marker, is reached outside a fence (as it is when no line before it starts
    with three backticks or three tildes), and no line between \<open>a\<close> and \<open>i\<close> starts with
    the same marker, line \<open>i\<close> lies in the fence of line \<open>a\<close> and is left as it is.
\<close>

theorem heading_cap_fence_aware:
  assumes "i < length (js_split text [CHR 0x0A])"
    and "js_split text [CHR 0x0A] ! i = p1 @ replicate k (CHR ''#'') @ w @ t"
    and "\<forall>x\<in>set p1. isSpace x" and "7 \<le> k"
    and "w \<noteq> []" and "\<forall>x\<in>set w. isSpace x"
    and "t \<noteq> []" and "\<not> isSpace (hd t)" and "noLineTerminator t"
  shows
    "(let lines = js_split text [CHR 0x0A];
          out = js_split (fst (fixMarkdownFormatting text)) [CHR 0x0A];
          stats = snd (fixMarkdownFormatting text)
      in (\<not> fst (fenceBefore lines i) \<longrightarrow>
            out ! i = trimTrailing (p1 @ ''###### '' @ t) \<and>
            (\<not> isBlank (last t) \<longrightarrow> out ! i = p1 @ ''###### '' @ t) \<and>
            1 \<le> statCount ''heading_cap_to_h6'' stats) \<and>
         (fst (fenceBefore lines i) \<longrightarrow> out ! i = lines ! i) \<and>
         statCount ''heading_cap_to_h6'' stats =
           card {j. j < length lines \<and> \<not> fst (fenceBefore lines j) \<and>
                    capHeadMatch (lines ! j) \<noteq> None} \<and>
         (\<forall>j<length lines.
            (fst (fenceBefore lines j) \<longrightarrow>
               snd (fenceBefore lines j) \<in> {[CHR 0x60, CHR 0x60, CHR 0x60], ''~~~''}) \<and>
            (\<not> fst (fenceBefore lines j) \<and> fst (fenceBefore lines (Suc j)) \<longrightarrow>
               startsWith (dropWhile isSpace (lines ! j)) (snd (fenceBefore lines (Suc j)))) \<and>
            (fst (fenceBefore lines j) \<and> fst (fenceBefore lines (Suc j)) \<longrightarrow>
               snd (fenceBefore lines (Suc j)) = snd (fenceBefore lines j)) \<and>
            (fst (fenceBefore lines j) \<longrightarrow>
               (\<not> fst (fenceBefore lines (Suc j)) \<longleftrightarrow>
                startsWith (dropWhile isSpace (lines ! j)) (snd (fenceBefore lines j))))) \<and>
         fenceBefore lines 0 = (False, []) \<and>
         (\<forall>j<length lines. \<not> fst (fenceBefore lines j) \<longrightarrow>
            (\<forall>mk\<in>{[CHR 0x60, CHR 0x60, CHR 0x60], ''~~~''}.
               startsWith (dropWhile isSpace (lines ! j)) mk \<longrightarrow>
               fenceBefore lines (Suc j) = (True, mk)) \<and>
            (\<not> startsWith (dropWhile isSpace (lines ! j)) [CHR 0x60, CHR 0x60, CHR 0x60] \<and>
             \<not> startsWith (dropWhile isSpace (lines ! j)) ''~~~'' \<longrightarrow>
               \<not> fst (fenceBefore lines (Suc j)))) \<and>
         ((\<forall>j<i. \<not> startsWith (dropWhile isSpace (lines ! j)) [CHR 0x60, CHR 0x60, CHR 0x60] \<and>
                 \<not> startsWith (dropWhile isSpace (lines ! j)) ''~~~'') \<longrightarrow>
            out ! i = trimTrailing (p1 @ ''###### '' @ t)) \<and>
         (\<forall>a<i. \<forall>mk\<in>{[CHR 0x60, CHR 0x60, CHR 0x60], ''~~~''}.
            (\<not> fst (fenceBefore lines a) \<or>
             (\<forall>j<a. \<not> startsWith (dropWhile isSpace (lines ! j)) [CHR 0x60, CHR 0x60, CHR 0x60] \<and>
                    \<not> startsWith (dropWhile isSpace (lines ! j)) ''~~~'')) \<and>
            startsWith (dropWhile isSpace (lines ! a)) mk \<and>
            (\<forall>j. a < j \<and> j < i \<longrightarrow> \<not> startsWith (dropWhile isSpace (lines ! j)) mk) \<longrightarrow>
            fenceBefore lines i = (True, mk) \<and> out ! i = lines ! i))"
proof -
  define lines where "lines = js_split text [CHR 0x0A]"
  define out where "out = js_split (fst (fixMarkdownFormatting text)) [CHR 0x0A]"
  define stats where "stats = snd (fixMarkdownFormatting text)"
  define capped where "capped = p1 @ ''###### '' @ t"
  define bt where "bt = [CHR 0x60, CHR 0x60, CHR 0x60]"
  define tl where "tl = ''~~~''"
  define opens where "opens = (\<lambda>l mk. startsWith (dropWhile isSpace l) mk)"
  note shape = assms(3-9)
  have i: "i < length lines" using assms(1) by (simp add: lines_def)
  have line: "lines ! i = p1 @ replicate k (CHR ''#'') @ w @ t"
    using assms(2) by (simp add: lines_def)
  have fence: "fenceMatch (lines ! i) = None"
    unfolding line by (rule deep_heading_fixLine(1) [OF shape])
  have cap: "capHeadMatch (lines ! i) \<noteq> None"
    unfolding line using deep_heading_fixLine(2) [OF shape] by simp
  have fx: "fst (fixLine (lines ! i) []) = capped"
    unfolding line capped_def by (rule deep_heading_fixLine(3) [OF shape])
  have nth: "out ! i = (if fst (fenceBefore lines i) then lines ! i else trimTrailing capped)"
    using fixMarkdownFormatting_nth [OF assms(1)] fence
    by (simp add: Let_def lines_def [symmetric] out_def [symmetric] fx)
  have count: "statCount ''heading_cap_to_h6'' stats =
      card {j. j < length lines \<and> \<not> fst (fenceBefore lines j) \<and> capHeadMatch (lines ! j) \<noteq> None}"
    unfolding stats_def lines_def by (rule fixMarkdownFormatting_cap_count)
  have a1: "\<not> fst (fenceBefore lines i) \<longrightarrow> out ! i = trimTrailing capped"
    by (simp add: nth)
  have a2: "\<not> fst (fenceBefore lines i) \<longrightarrow> (\<not> isBlank (last t) \<longrightarrow> out ! i = capped)"
  proof (intro impI)
    assume o: "\<not> fst (fenceBefore lines i)" and b: "\<not> isBlank (last t)"
    from assms(7) have "capped \<noteq> []" "last capped = last t" by (simp_all add: capped_def)
    with b have "trimTrailing capped = capped" by (intro trimTrailing_id) simp_all
    with o show "out ! i = capped" by (simp add: nth)
  qed
  have a3: "\<not> fst (fenceBefore lines i) \<longrightarrow> 1 \<le> statCount ''heading_cap_to_h6'' stats"
  proof
    assume o: "\<not> fst (fenceBefore lines i)"
    define S where "S = {j. j < length lines \<and> \<not> fst (fenceBefore lines j) \<and> capHeadMatch (lines ! j) \<noteq> None}"
    have "finite S" unfolding S_def by simp
    moreover have "i \<in> S" unfolding S_def using i o cap by simp
    ultimately have "0 < card S" using card_gt_0_iff by blast
    moreover have "statCount ''heading_cap_to_h6'' stats = card S"
      unfolding S_def by (rule count)
    ultimately show "1 \<le> statCount ''heading_cap_to_h6'' stats" by simp
  qed
  have a: "\<not> fst (fenceBefore lines i) \<longrightarrow>
            out ! i = trimTrailing capped \<and>
            (\<not> isBlank (last t) \<longrightarrow> out ! i = capped) \<and>
            1 \<le> statCount ''heading_cap_to_h6'' stats"
    using a1 a2 a3 by blast
  have b: "fst (fenceBefore lines i) \<longrightarrow> out ! i = lines ! i"
    by (simp add: nth)
  have f: "\<forall>j<length lines.
            (fst (fenceBefore lines j) \<longrightarrow> snd (fenceBefore lines j) \<in> {bt, tl}) \<and>
            (\<not> fst (fenceBefore lines j) \<and> fst (fenceBefore lines (Suc j)) \<longrightarrow>
               opens (lines ! j) (snd (fenceBefore lines (Suc j)))) \<and>
            (fst (fenceBefore lines j) \<and> fst (fenceBefore lines (Suc j)) \<longrightarrow>
               snd (fenceBefore lines (Suc j)) = snd (fenceBefore lines j)) \<and>
            (fst (fenceBefore lines j) \<longrightarrow>
               (\<not> fst (fenceBefore lines (Suc j)) \<longleftrightarrow>
                opens (lines ! j) (snd (fenceBefore lines j))))"
  proof (intro allI impI)
    fix j assume j: "j < length lines"
    define st where "st = fenceBefore lines j"
    have suc: "fenceBefore lines (Suc j) = fenceStep st (lines ! j)"
      unfolding st_def by (rule fenceBefore_Suc [OF j])
    have m: "fst st \<longrightarrow> snd st \<in> {bt, tl}"
      unfolding st_def bt_def tl_def by (rule fenceBefore_marker)
    have o: "\<not> fst st \<and> fst (fenceStep st (lines ! j)) \<longrightarrow>
        opens (lines ! j) (snd (fenceStep st (lines ! j)))"
      unfolding opens_def using fenceStep_open by blast
    have s: "fst st \<and> fst (fenceStep st (lines ! j)) \<longrightarrow>
        snd (fenceStep st (lines ! j)) = snd st"
      using fenceStep_stay [of st "lines ! j"] by auto
    have c: "fst st \<longrightarrow> (\<not> fst (fenceStep st (lines ! j)) \<longleftrightarrow>
        opens (lines ! j) (snd st))"
      unfolding opens_def using fenceStep_close [of st "lines ! j"] m
      unfolding bt_def tl_def by blast
    show "(fst (fenceBefore lines j) \<longrightarrow> snd (fenceBefore lines j) \<in> {bt, tl}) \<and>
            (\<not> fst (fenceBefore lines j) \<and> fst (fenceBefore lines (Suc j)) \<longrightarrow>
               opens (lines ! j) (snd (fenceBefore lines (Suc j)))) \<and>
            (fst (fenceBefore lines j) \<and> fst (fenceBefore lines (Suc j)) \<longrightarrow>
               snd (fenceBefore lines (Suc j)) = snd (fenceBefore lines j)) \<and>
            (fst (fenceBefore lines j) \<longrightarrow>
               (\<not> fst (fenceBefore lines (Suc j)) \<longleftrightarrow>
                opens (lines ! j) (snd (fenceBefore lines j))))"
      unfolding suc st_def [symmetric] using m o s c by (intro conjI)
  qed
  have n1: "fenceBefore lines 0 = (False, [])" by (rule fenceBefore_0)
  have n2: "\<forall>j<length lines. \<not> fst (fenceBefore lines j) \<longrightarrow>
            (\<forall>mk\<in>{bt, tl}. opens (lines ! j) mk \<longrightarrow> fenceBefore lines (Suc j) = (True, mk)) \<and>
            (\<not> opens (lines ! j) bt \<and> \<not> opens (lines ! j) tl \<longrightarrow>
               \<not> fst (fenceBefore lines (Suc j)))"
  proof (intro allI impI conjI ballI)
    fix j mk
    assume j: "j < length lines" and o: "\<not> fst (fenceBefore lines j)"
      and mk: "mk \<in> {bt, tl}" and s: "opens (lines ! j) mk"
    from fenceStep_opens [OF o, of mk "lines ! j"] mk s
    show "fenceBefore lines (Suc j) = (True, mk)"
      unfolding opens_def bt_def tl_def by (simp add: fenceBefore_Suc [OF j])
  next
    fix j
    assume j: "j < length lines" and o: "\<not> fst (fenceBefore lines j)"
      and s: "\<not> opens (lines ! j) bt \<and> \<not> opens (lines ! j) tl"
    then have "fenceMatch (lines ! j) = None"
      unfolding opens_def bt_def tl_def by (simp add: fenceMatch_None_iff)
    with o show "\<not> fst (fenceBefore lines (Suc j))"
      by (simp add: fenceBefore_Suc [OF j] fenceStep_None)
  qed
  have closed: "fenceBefore lines a = (False, [])"
    if "a \<le> i" and "\<forall>j<a. \<not> opens (lines ! j) bt \<and> \<not> opens (lines ! j) tl" for a
  proof (rule fenceBefore_no_fence)
    from that(1) i show "a \<le> length lines" by simp
    from that(2) show "\<forall>k<a. fenceMatch (lines ! k) = None"
      unfolding opens_def bt_def tl_def by (simp add: fenceMatch_None_iff)
  qed
  have n3: "(\<forall>j<i. \<not> opens (lines ! j) bt \<and> \<not> opens (lines ! j) tl) \<longrightarrow>
            out ! i = trimTrailing capped"
  proof
    assume "\<forall>j<i. \<not> opens (lines ! j) bt \<and> \<not> opens (lines ! j) tl"
    then have "fenceBefore lines i = (False, [])" by (intro closed) simp_all
    with a1 show "out ! i = trimTrailing capped" by simp
  qed
  have n4: "\<forall>a<i. \<forall>mk\<in>{bt, tl}.
            (\<not> fst (fenceBefore lines a) \<or>
             (\<forall>j<a. \<not> opens (lines ! j) bt \<and> \<not> opens (lines ! j) tl)) \<and>
            opens (lines ! a) mk \<and>
            (\<forall>j. a < j \<and> j < i \<longrightarrow> \<not> opens (lines ! j) mk) \<longrightarrow>
            fenceBefore lines i = (True, mk) \<and> out ! i = lines ! i"
  proof (intro allI impI ballI)
    fix a mk
    assume a: "a < i" and mk: "mk \<in> {bt, tl}"
      and h: "(\<not> fst (fenceBefore lines a) \<or>
             (\<forall>j<a. \<not> opens (lines ! j) bt \<and> \<not> opens (lines ! j) tl)) \<and>
            opens (lines ! a) mk \<and>
            (\<forall>j. a < j \<and> j < i \<longrightarrow> \<not> opens (lines ! j) mk)"
    have o: "\<not> fst (fenceBefore lines a)"
    proof (cases "fst (fenceBefore lines a)")
      case False
      then show ?thesis .
    next
      case True
      with h have "\<forall>j<a. \<not> opens (lines ! j) bt \<and> \<not> opens (lines ! j) tl" by blast
      with a have "fenceBefore lines a = (False, [])" by (intro closed) simp_all
      then show ?thesis by simp
    qed
    from a i have al: "a < length lines" by simp
    from mk have mk': "mk \<in> {[CHR 0x60, CHR 0x60, CHR 0x60], ''~~~''}"
      unfolding bt_def tl_def .
    from h have s: "startsWith (dropWhile isSpace (lines ! a)) mk" unfolding opens_def by blast
    have sa: "fenceBefore lines (Suc a) = (True, mk)"
      using fenceStep_opens [OF o mk' s] by (simp add: fenceBefore_Suc [OF al])
    from h have nb: "\<forall>j. a < j \<and> j < i \<longrightarrow> \<not> startsWith (dropWhile isSpace (lines ! j)) mk"
      unfolding opens_def by blast
    from i have il: "i \<le> length lines" by simp
    have st: "fenceBefore lines i = (True, mk)"
      by (rule fenceBefore_in_block [OF sa mk' a il nb])
    with b show "fenceBefore lines i = (True, mk) \<and> out ! i = lines ! i" by simp
  qed
  have all: "(\<not> fst (fenceBefore lines i) \<longrightarrow>
            out ! i = trimTrailing capped \<and>
            (\<not> isBlank (last t) \<longrightarrow> out ! i = capped) \<and>
            1 \<le> statCount ''heading_cap_to_h6'' stats) \<and>
         (fst (fenceBefore lines i) \<longrightarrow> out ! i = lines ! i) \<and>
         statCount ''heading_cap_to_h6'' stats =
           card {j. j < length lines \<and> \<not> fst (fenceBefore lines j) \<and>
                    capHeadMatch (lines ! j) \<noteq> None} \<and>
         (\<forall>j<length lines.
            (fst (fenceBefore lines j) \<longrightarrow> snd (fenceBefore lines j) \<in> {bt, tl}) \<and>
            (\<not> fst (fenceBefore lines j) \<and> fst (fenceBefore lines (Suc j)) \<longrightarrow>
               opens (lines ! j) (snd (fenceBefore lines (Suc j)))) \<and>
            (fst (fenceBefore lines j) \<and> fst (fenceBefore lines (Suc j)) \<longrightarrow>
               snd (fenceBefore lines (Suc j)) = snd (fenceBefore lines j)) \<and>
            (fst (fenceBefore lines j) \<longrightarrow>
               (\<not> fst (fenceBefore lines (Suc j)) \<longleftrightarrow>
                opens (lines ! j) (snd (fenceBefore lines j))))) \<and>
         fenceBefore lines 0 = (False, []) \<and>
         (\<forall>j<length lines. \<not> fst (fenceBefore lines j) \<longrightarrow>
            (\<forall>mk\<in>{bt, tl}. opens (lines ! j) mk \<longrightarrow> fenceBefore lines (Suc j) = (True, mk)) \<and>
            (\<not> opens (lines ! j) bt \<and> \<not> opens (lines ! j) tl \<longrightarrow>
               \<not> fst (fenceBefore lines (Suc j)))) \<and>
         ((\<forall>j<i. \<not> opens (lines ! j) bt \<and> \<not> opens (lines ! j) tl) \<longrightarrow>
            out ! i = trimTrailing capped) \<and>
         (\<forall>a<i. \<forall>mk\<in>{bt, tl}.
            (\<not> fst (fenceBefore lines a) \<or>
             (\<forall>j<a. \<not> opens (lines ! j) bt \<and> \<not> opens (lines ! j) tl)) \<and>
            opens (lines ! a) mk \<and>
            (\<forall>j. a < j \<and> j < i \<longrightarrow> \<not> opens (lines ! j) mk) \<longrightarrow>
            fenceBefore lines i = (True, mk) \<and> out ! i = lines ! i)"
    by (intro conjI) (rule a, rule b, rule count, rule f, rule n1, rule n2, rule n3, rule n4)
  show ?thesis
    unfolding Let_def
    using all [unfolded lines_def out_def stats_def capped_def bt_def tl_def opens_def] .
qed

theorem heading_cap_fence_aware_witness:
  "js_split demoMarkdown [CHR 0x0A] ! 0 = [] @ replicate 8 (CHR ''#'') @ '' '' @ ''Title '' \<and>
   js_split demoMarkdown [CHR 0x0A] ! 2 = [] @ replicate 8 (CHR ''#'') @ '' '' @ ''Title '' \<and>
   \<not> fst (fenceBefore (js_split demoMarkdown [CHR 0x0A]) 0) \<and>
   fenceBefore (js_split demoMarkdown [CHR 0x0A]) 2 = (True, ''~~~'') \<and>
   fenceBefore (js_split demoMarkdown [CHR 0x0A]) 4 = (True, ''~~~'') \<and>
   fenceBefore (js_split demoMarkdown [CHR 0x0A]) 5 = (False, []) \<and>
   js_split (fst (fixMarkdownFormatting demoMarkdown)) [CHR 0x0A] ! 0 = ''###### Title'' \<and>
   js_split (fst (fixMarkdownFormatting demoMarkdown)) [CHR 0x0A] ! 2 = ''######## Title '' \<and>
   statCount ''heading_cap_to_h6'' (snd (fixMarkdownFormatting demoMarkdown)) = 1 \<and>
   js_split demoBackticks [CHR 0x0A] ! 3 = [] @ replicate 8 (CHR ''#'') @ '' '' @ ''Title'' \<and>
   js_split demoBackticks [CHR 0x0A] ! 5 = [] @ replicate 8 (CHR ''#'') @ '' '' @ ''Title'' \<and>
   startsWith (dropWhile isSpace (js_split demoBackticks [CHR 0x0A] ! 0)) [CHR 0x60, CHR 0x60, CHR 0x60] \<and>
   fenceBefore (js_split demoBackticks [CHR 0x0A]) 3 = (True, [CHR 0x60, CHR 0x60, CHR 0x60]) \<and>
   js_split (fst (fixMarkdownFormatting demoBackticks)) [CHR 0x0A] ! 3 = ''######## Title'' \<and>
   \<not> fst (fenceBefore (js_split demoBackticks [CHR 0x0A]) 5) \<and>
   js_split (fst (fixMarkdownFormatting demoBackticks)) [CHR 0x0A] ! 5 = ''###### Title''"
proof -
  have len: "0 < length (js_split demoMarkdown [CHR 0x0A])" "2 < length (js_split demoMarkdown [CHR 0x0A])"
    by code_simp+
  have l0: "js_split demoMarkdown [CHR 0x0A] ! 0 = [] @ replicate 8 (CHR ''#'') @ '' '' @ ''Title ''"
    and l2: "js_split demoMarkdown [CHR 0x0A] ! 2 = [] @ replicate 8 (CHR ''#'') @ '' '' @ ''Title ''"
    by code_simp+
  have shape: "\<forall>x\<in>set []. isSpace x" "(7::nat) \<le> 8" "'' '' \<noteq> []" "\<forall>x\<in>set '' ''. isSpace x"
    "''Title '' \<noteq> []" "\<not> isSpace (hd ''Title '')" "noLineTerminator ''Title ''"
    by (simp_all add: isSpace_def noLineTerminator_def isLineTerminator_def)
  have st: "\<not> fst (fenceBefore (js_split demoMarkdown [CHR 0x0A]) 0)"
    "fenceBefore (js_split demoMarkdown [CHR 0x0A]) 2 = (True, ''~~~'')"
    "fenceBefore (js_split demoMarkdown [CHR 0x0A]) 4 = (True, ''~~~'')"
    "fenceBefore (js_split demoMarkdown [CHR 0x0A]) 5 = (False, [])"
    by code_simp+
  have tr: "trimTrailing ([] @ ''###### '' @ ''Title '') = ''###### Title''"
    by code_simp
  have cnt: "statCount ''heading_cap_to_h6'' (snd (fixMarkdownFormatting demoMarkdown)) = 1"
    by code_simp
  from heading_cap_fence_aware [OF len(1) l0 shape] st(1)
  have o0: "js_split (fst (fixMarkdownFormatting demoMarkdown)) [CHR 0x0A] ! 0 =
      trimTrailing ([] @ ''###### '' @ ''Title '')"
    unfolding Let_def by blast
  from heading_cap_fence_aware [OF len(2) l2 shape] st(2)
  have o2: "js_split (fst (fixMarkdownFormatting demoMarkdown)) [CHR 0x0A] ! 2 =
      js_split demoMarkdown [CHR 0x0A] ! 2"
    unfolding Let_def by simp
  have v2: "js_split demoMarkdown [CHR 0x0A] ! 2 = ''######## Title ''"
    by code_simp
  define L where "L = js_split demoBackticks [CHR 0x0A]"
  define out where "out = js_split (fst (fixMarkdownFormatting demoBackticks)) [CHR 0x0A]"
  have blen: "3 < length (js_split demoBackticks [CHR 0x0A])" "5 < length (js_split demoBackticks [CHR 0x0A])"
    by code_simp+
  have b3: "js_split demoBackticks [CHR 0x0A] ! 3 = [] @ replicate 8 (CHR ''#'') @ '' '' @ ''Title''"
    and b5: "js_split demoBackticks [CHR 0x0A] ! 5 = [] @ replicate 8 (CHR ''#'') @ '' '' @ ''Title''"
    by code_simp+
  have bshape: "\<forall>x\<in>set []. isSpace x" "(7::nat) \<le> 8" "'' '' \<noteq> []" "\<forall>x\<in>set '' ''. isSpace x"
    "''Title'' \<noteq> []" "\<not> isSpace (hd ''Title'')" "noLineTerminator ''Title''"
    by (simp_all add: isSpace_def noLineTerminator_def isLineTerminator_def)
  have op: "startsWith (dropWhile isSpace (L ! 0)) [CHR 0x60, CHR 0x60, CHR 0x60]"
    and n1: "\<not> startsWith (dropWhile isSpace (L ! 1)) [CHR 0x60, CHR 0x60, CHR 0x60]"
    and n2: "\<not> startsWith (dropWhile isSpace (L ! 2)) [CHR 0x60, CHR 0x60, CHR 0x60]"
    and c5: "\<not> fst (fenceBefore L 5)"
    unfolding L_def by code_simp+
  have nb: "\<forall>j. 0 < j \<and> j < 3 \<longrightarrow> \<not> startsWith (dropWhile isSpace (L ! j)) [CHR 0x60, CHR 0x60, CHR 0x60]"
  proof (intro allI impI)
    fix j :: nat assume "0 < j \<and> j < 3"
    then have "j = 1 \<or> j = 2" by auto
    with n1 n2 show "\<not> startsWith (dropWhile isSpace (L ! j)) [CHR 0x60, CHR 0x60, CHR 0x60]"
      by auto
  qed
  from heading_cap_fence_aware [OF blen(1) b3 bshape]
  have blk: "\<forall>a<3. \<forall>mk\<in>{[CHR 0x60, CHR 0x60, CHR 0x60], ''~~~''}.
            (\<not> fst (fenceBefore L a) \<or>
             (\<forall>j<a. \<not> startsWith (dropWhile isSpace (L ! j)) [CHR 0x60, CHR 0x60, CHR 0x60] \<and>
                    \<not> startsWith (dropWhile isSpace (L ! j)) ''~~~'')) \<and>
            startsWith (dropWhile isSpace (L ! a)) mk \<and>
            (\<forall>j. a < j \<and> j < 3 \<longrightarrow> \<not> startsWith (dropWhile isSpace (L ! j)) mk) \<longrightarrow>
            fenceBefore L 3 = (True, mk) \<and> out ! 3 = L ! 3"
    unfolding Let_def L_def out_def by (elim conjE)
  have o3: "fenceBefore L 3 = (True, [CHR 0x60, CHR 0x60, CHR 0x60]) \<and> out ! 3 = L ! 3"
    using blk [rule_format, of 0 "[CHR 0x60, CHR 0x60, CHR 0x60]"] op nb by simp
  have w3: "L ! 3 = ''######## Title''" unfolding L_def by code_simp
  from heading_cap_fence_aware [OF blen(2) b5 bshape] c5
  have o5: "out ! 5 = trimTrailing ([] @ ''###### '' @ ''Title'')"
    unfolding Let_def L_def out_def by blast
  have tr5: "trimTrailing ([] @ ''###### '' @ ''Title'') = ''###### Title''"
    by code_simp
  show ?thesis
    unfolding L_def [symmetric] out_def [symmetric]
    by (intro conjI) (rule l0, rule l2, rule st(1), rule st(2), rule st(3), rule st(4),
      simp only: o0 tr, simp only: o2 v2, rule cnt,
      rule b3 [folded L_def], rule b5 [folded L_def], rule op, simp only: o3,
      simp only: o3 w3, rule c5, simp only: o5 tr5)
qed

text \<open>
  Claim C9 as it is written, for every input text, does not hold: \<^verbatim>\<open>.\<close> matches no
  carriage return and \<^verbatim>\<open>$\<close> only the end of the line, and no line end other than the
  line feed is handled anywhere. In a text of two lines with the line end CR LF, the
  heading of the first line, which ends in the carriage return, keeps its eight
  hashes; the same heading on the last line is capped, and there the space at the end
  of its text is removed.
\<close>

theorem heading_with_carriage_return_stays:
  "fixMarkdownFormatting (''######## Title'' @ [CHR 0x0D] @ ''\<newline>######## Title '') =
     (''######## Title'' @ [CHR 0x0D] @ ''\<newline>###### Title'',
      [(''heading_cap_to_h6'', 1), (''trim_trailing_whitespace'', 1)])"
  by code_simp

subsection \<open>Two runs on small inputs\<close>

text \<open>The pattern \<^verbatim>\<open>(\w+)@(\w+)\<close> matches the line \<^verbatim>\<open>a@b\<close> as a whole, with the groups
  \<^verbatim>\<open>a\<close> and \<^verbatim>\<open>b\<close>; the template \<^verbatim>\<open>$2 at $1\<close> swaps them.\<close>

lemma computeReplacement_swaps_groups:
  "computeReplacement ''$2 at $1'' ''a@b''
     \<lparr>index = 0, whole = ''a@b'', captures = [Some ''a'', Some ''b'']\<rparr> = ''b at a''"
  by code_simp

text \<open>A heading that ends in two spaces keeps them; the bullet and the ordered item
  get exactly one space.\<close>

lemma fixMarkdownFormatting_lists:
  "fixMarkdownFormatting ''# Heading  \<newline>-item\<newline>10.  next'' =
     (''# Heading  \<newline>- item\<newline>10. next'',
      [(''list_bullet_space'', 1), (''list_ordered_space'', 1)])"
  by code_simp

end
